theory Spec2Isabelle
  imports Main
begin

section \<open>Python values, errors and sequence indexing\<close>

text \<open>
  Every raise of the source is a value: a function that can raise returns
  \<open>error + 'a\<close>, with \<open>Inl\<close> the exception.
\<close>

datatype error = AssertionError | KeyError | IndexError | RuntimeError

type_synonym name = string

text \<open>
  Python's \<open>xs[i]\<close> for an integer \<open>i\<close>: a negative index counts from the end,
  and an index outside \<open>[-len, len)\<close> raises IndexError.
\<close>

definition py_norm :: "nat \<Rightarrow> int \<Rightarrow> error + nat" where
  "py_norm n i =
     (let j = (if i < 0 then int n + i else i)
      in if 0 \<le> j \<and> j < int n then Inr (nat j) else Inl IndexError)"

text \<open>The position that a valid index \<open>i\<close> names in a sequence of length \<open>n\<close>.\<close>

definition py_axis :: "nat \<Rightarrow> int \<Rightarrow> nat" where
  "py_axis n i = nat (if i < 0 then int n + i else i)"

definition py_getitem :: "'a list \<Rightarrow> int \<Rightarrow> error + 'a" where
  "py_getitem xs i = (case py_norm (length xs) i of Inl err \<Rightarrow> Inl err | Inr k \<Rightarrow> Inr (xs ! k))"

definition py_setitem :: "'a list \<Rightarrow> int \<Rightarrow> 'a \<Rightarrow> error + 'a list" where
  "py_setitem xs i v =
     (case py_norm (length xs) i of Inl err \<Rightarrow> Inl err | Inr k \<Rightarrow> Inr (xs[k := v]))"

text \<open>Python's \<open>xs[:k]\<close>: a negative stop counts from the end and is clamped at 0.\<close>

definition py_take :: "int \<Rightarrow> 'a list \<Rightarrow> 'a list" where
  "py_take k xs = (if 0 \<le> k then take (nat k) xs else take (nat (int (length xs) + k)) xs)"

section \<open>Tensors\<close>

text \<open>
  A tensor is its shape and its elements, read at a multi-index (one coordinate per
  axis, each below the axis length). Only the elements at the positions of the shape
  belong to the tensor.
\<close>

record 'a tensor =
  shape :: "nat list"
  elem :: "nat list \<Rightarrow> 'a"

text \<open>All positions of a shape, in row-major order.\<close>

fun all_indices :: "nat list \<Rightarrow> nat list list" where
  "all_indices [] = [[]]"
| "all_indices (n # s) = concat (map (\<lambda>i. map ((#) i) (all_indices s)) [0..<n])"

definition valid_index :: "nat list \<Rightarrow> nat list \<Rightarrow> bool" where
  "valid_index s j = list_all2 (<) j s"

text \<open>
  \<open>torch.Tensor.index_select(dim, index)\<close>: the axis \<open>dim\<close> (negative counts from
  the end) now has one position per entry of \<open>index\<close>, and position \<open>k\<close> along it
  reads position \<open>index[k]\<close> of the input. An axis outside the tensor or an index outside the
  axis raises IndexError.
\<close>

definition index_select :: "'a tensor \<Rightarrow> int \<Rightarrow> nat list \<Rightarrow> error + 'a tensor" where
  "index_select t d idx =
     (case py_norm (length (shape t)) d of
        Inl err \<Rightarrow> Inl err
      | Inr a \<Rightarrow>
          if \<forall>i \<in> set idx. i < shape t ! a
          then Inr \<lparr>shape = (shape t)[a := length idx],
                    elem = (\<lambda>j. elem t (j[a := idx ! (j ! a)]))\<rparr>
          else Inl IndexError)"

text \<open>
  \<open>torch.broadcast_shapes\<close>: shapes are aligned at their last axis; two lengths agree
  when they are equal or one of them is 1, and anything else raises RuntimeError.
\<close>

fun broadcast_rev :: "nat list \<Rightarrow> nat list \<Rightarrow> error + nat list" where
  "broadcast_rev [] ys = Inr ys"
| "broadcast_rev (x # xs) [] = Inr (x # xs)"
| "broadcast_rev (x # xs) (y # ys) =
     (case broadcast_rev xs ys of
        Inl err \<Rightarrow> Inl err
      | Inr zs \<Rightarrow>
          if x = y \<or> y = 1 then Inr (x # zs)
          else if x = 1 then Inr (y # zs)
          else Inl RuntimeError)"

definition broadcast_shapes :: "nat list \<Rightarrow> nat list \<Rightarrow> error + nat list" where
  "broadcast_shapes a b =
     (case broadcast_rev (rev a) (rev b) of Inl err \<Rightarrow> Inl err | Inr zs \<Rightarrow> Inr (rev zs))"

fun broadcast_all :: "nat list list \<Rightarrow> error + nat list" where
  "broadcast_all [] = Inr []"
| "broadcast_all (s # ss) =
     (case broadcast_all ss of Inl err \<Rightarrow> Inl err | Inr b \<Rightarrow> broadcast_shapes s b)"

text \<open>
  The position that a tensor of shape \<open>s\<close> reads when it is broadcast to a larger shape
  and the larger shape is at position \<open>p\<close>: its own axes are the last ones, and an axis of
  length 1 is read at 0.
\<close>

definition bc_at :: "nat list \<Rightarrow> nat list \<Rightarrow> nat list" where
  "bc_at s p = map2 (\<lambda>n i. if n = 1 then 0 else i) s (drop (length p - length s) p)"

text \<open>A shape \<open>s\<close> can be expanded to \<open>b\<close> (\<open>torch.Tensor.expand\<close>).\<close>

definition expandable :: "nat list \<Rightarrow> nat list \<Rightarrow> bool" where
  "expandable s b \<longleftrightarrow>
     length s \<le> length b \<and> list_all2 (\<lambda>n k. n = k \<or> n = 1) s (drop (length b - length s) b)"

definition new_zeros :: "nat list \<Rightarrow> 'a::zero tensor" where
  "new_zeros s = \<lparr>shape = s, elem = (\<lambda>j. 0)\<rparr>"

text \<open>\<open>torch.as_tensor\<close> of a number: a tensor with no axis.\<close>

definition as_tensor :: "'a \<Rightarrow> 'a tensor" where
  "as_tensor x = \<lparr>shape = [], elem = (\<lambda>j. x)\<rparr>"

text \<open>
  A one-axis tensor of indices \<open>xs\<close> after \<open>.reshape((-1,) + (1,) * k)\<close>: the
  entries run along the first axis, followed by \<open>k\<close> axes of length 1 (none when
  \<open>k\<close> is negative, as \<open>(1,) * k\<close> is then the empty tuple).
\<close>

definition reshape_col :: "nat list \<Rightarrow> int \<Rightarrow> nat tensor" where
  "reshape_col xs k = \<lparr>shape = length xs # replicate (nat k) 1, elem = (\<lambda>q. xs ! (q ! 0))\<rparr>"

text \<open>
  The assignment \<open>result[tuple(index)] = value\<close> with one index tensor per axis of
  \<open>result\<close> (the only form the source uses). The index tensors are broadcast to a
  common shape \<open>b\<close>; \<open>value\<close>, with its leading axes of length 1 removed, must expand to
  \<open>b\<close> (RuntimeError otherwise); every position \<open>p\<close> of \<open>b\<close> names the target
  position whose coordinates are the index tensors read at \<open>p\<close>, which must lie inside
  \<open>result\<close> (IndexError otherwise), and that target receives \<open>value\<close> read at \<open>p\<close>.
  All other positions keep their element. Should two positions name one target, the last
  in row-major order is kept.
\<close>

definition index_put :: "'a tensor \<Rightarrow> nat tensor list \<Rightarrow> 'a tensor \<Rightarrow> error + 'a tensor" where
  "index_put result index value =
     (if length index \<noteq> length (shape result) then Inl IndexError
      else
        (case broadcast_all (map shape index) of
           Inl err \<Rightarrow> Inl err
         | Inr b \<Rightarrow>
             (let vs = dropWhile (\<lambda>n. n = 1) (shape value);
                  lead = length (shape value) - length vs;
                  target = (\<lambda>p. map (\<lambda>ix. elem ix (bc_at (shape ix) p)) index)
              in if \<not> expandable vs b then Inl RuntimeError
                 else if \<exists>p \<in> set (all_indices b). \<not> valid_index (shape result) (target p)
                 then Inl IndexError
                 else Inr \<lparr>shape = shape result,
                           elem = (\<lambda>j. case find (\<lambda>p. target p = j) (rev (all_indices b)) of
                                          None \<Rightarrow> elem result j
                                        | Some p \<Rightarrow> elem value (replicate lead 0 @ bc_at vs p))\<rparr>)))"

text \<open>
  Element-wise equality with broadcasting, \<open>(a == b).all()\<close>: RuntimeError when the
  shapes do not broadcast.
\<close>

definition elementwise_eq :: "'a tensor \<Rightarrow> 'a tensor \<Rightarrow> error + bool" where
  "elementwise_eq a b =
     (case broadcast_shapes (shape a) (shape b) of
        Inl err \<Rightarrow> Inl err
      | Inr s \<Rightarrow>
          Inr (\<forall>p \<in> set (all_indices s). elem a (bc_at (shape a) p) = elem b (bc_at (shape b) p)))"

section \<open>Index sets and the plate registry\<close>

text \<open>
  Modelled from the spec: \<open>IndexSet\<close> and \<open>union\<close> (causal\_pyro/indexed/ops.py is
  not among the sources at hand). An IndexSet maps a world-dimension name to a set of
  non-negative indices, and a key is present only when its set is non-empty. The code
  iterates it with \<open>items()\<close>, so it is an association list in iteration order.
  \<open>union\<close> merges by key-wise set union and omits the keys whose merged set is empty.
\<close>

type_synonym IndexSet = "(name \<times> nat set) list"

definition IndexSet :: "(name \<times> nat set) list \<Rightarrow> IndexSet" where
  "IndexSet kwargs = filter (\<lambda>(k, vs). vs \<noteq> {}) kwargs"

definition indices_at :: "IndexSet \<Rightarrow> name \<Rightarrow> nat set" where
  "indices_at ix k = (case map_of ix k of None \<Rightarrow> {} | Some vs \<Rightarrow> vs)"

definition union_indexset :: "IndexSet \<Rightarrow> IndexSet \<Rightarrow> IndexSet" where
  "union_indexset a b =
     IndexSet (map (\<lambda>k. (k, indices_at a k \<union> indices_at b k)) (remdups (map fst a @ map fst b)))"

text \<open>
  The registry of plates that \<open>get_index_plates()\<close> returns: a dictionary from a
  name to its frame (name, dim, size).
\<close>

record frame =
  frame_name :: name
  frame_dim :: int
  frame_size :: nat

type_synonym plates = "(name \<times> frame) list"

type_synonym name_to_dim = "(name \<times> int) list"

text \<open>
  The defaults that \<open>gather\<close> and \<open>scatter\<close> take for absent arguments: no
  \<open>event_dim\<close> is 0, no \<open>name_to_dim\<close> is the snapshot of the registry.
\<close>

definition default_event_dim :: "int option \<Rightarrow> int" where
  "default_event_dim event_dim = (case event_dim of None \<Rightarrow> 0 | Some e \<Rightarrow> e)"

definition default_name_to_dim :: "plates \<Rightarrow> name_to_dim option \<Rightarrow> name_to_dim" where
  "default_name_to_dim index_plates name_to_dim =
     (case name_to_dim of
        None \<Rightarrow> map (\<lambda>(name, f). (name, frame_dim f)) index_plates
      | Some m \<Rightarrow> m)"

section \<open>gather\<close>

text \<open>
  The loop of \<open>_gather_tensor\<close> over \<open>indexset.items()\<close>. \<open>name_to_dim[name]\<close>
  raises KeyError for a missing name; \<open>result.shape[dim]\<close> raises IndexError outside
  the shape (Python evaluates it only when \<open>len(result.shape) < -dim\<close> is false).
\<close>

fun gather_loop :: "name_to_dim \<Rightarrow> int \<Rightarrow> 'a tensor \<Rightarrow> IndexSet \<Rightarrow> error + 'a tensor" where
  "gather_loop m e result [] = Inr result"
| "gather_loop m e result ((name, indices) # items) =
     (case map_of m name of
        None \<Rightarrow> Inl KeyError
      | Some d \<Rightarrow>
          (let dim = d - e in
           if int (length (shape result)) < - dim then gather_loop m e result items
           else
             (case py_getitem (shape result) dim of
                Inl err \<Rightarrow> Inl err
              | Inr n \<Rightarrow>
                  if n = 1 then gather_loop m e result items
                  else
                    (case index_select result dim (sorted_list_of_set indices) of
                       Inl err \<Rightarrow> Inl err
                     | Inr r \<Rightarrow> gather_loop m e r items))))"

definition gather_tensor ::
  "plates \<Rightarrow> 'a tensor \<Rightarrow> IndexSet \<Rightarrow> int option \<Rightarrow> name_to_dim option \<Rightarrow> error + 'a tensor" where
  "gather_tensor index_plates value indexset event_dim name_to_dim =
     gather_loop (default_name_to_dim index_plates name_to_dim) (default_event_dim event_dim)
       value indexset"

text \<open>
  \<open>_gather_number\<close>: a number is gathered as a tensor with no axis, after the
  assertion on \<open>event_dim\<close>.
\<close>

definition gather_number ::
  "plates \<Rightarrow> 'a \<Rightarrow> IndexSet \<Rightarrow> int option \<Rightarrow> name_to_dim option \<Rightarrow> error + 'a tensor" where
  "gather_number index_plates value indexset event_dim name_to_dim =
     (if event_dim = None \<or> event_dim = Some 0
      then gather_tensor index_plates (as_tensor value) indexset event_dim name_to_dim
      else Inl AssertionError)"

section \<open>indices\_of\<close>

text \<open>
  The dictionary comprehension of \<open>_indices_of_shape\<close> over \<open>name_to_dim.items()\<close>:
  \<open>value[dim]\<close> is evaluated only when \<open>-dim <= len(value)\<close> holds and raises
  IndexError outside the shape.
\<close>

fun indices_of_shape_items :: "nat list \<Rightarrow> name_to_dim \<Rightarrow> error + (name \<times> nat set) list" where
  "indices_of_shape_items value [] = Inr []"
| "indices_of_shape_items value ((name, dim) # rest) =
     (if - dim \<le> int (length value)
      then
        (case py_getitem value dim of
           Inl err \<Rightarrow> Inl err
         | Inr n \<Rightarrow>
             if n > 1
             then
               (case indices_of_shape_items value rest of
                  Inl err \<Rightarrow> Inl err
                | Inr kwargs \<Rightarrow> Inr ((name, {0..<n}) # kwargs))
             else indices_of_shape_items value rest)
      else indices_of_shape_items value rest)"

text \<open>
  The keyword arguments are the two options: an absent \<open>event_dim\<close> is 0
  (\<open>kwargs.get("event_dim", 0)\<close>), an absent \<open>name_to_dim\<close> is the snapshot of the
  registry. The shape is cut by \<open>value[:len(value) - event_dim]\<close> first.
\<close>

definition indices_of_shape ::
  "plates \<Rightarrow> nat list \<Rightarrow> int option \<Rightarrow> name_to_dim option \<Rightarrow> error + IndexSet" where
  "indices_of_shape index_plates value event_dim name_to_dim =
     (let m = default_name_to_dim index_plates name_to_dim;
          value' = py_take (int (length value) - default_event_dim event_dim) value
      in case indices_of_shape_items value' m of
           Inl err \<Rightarrow> Inl err
         | Inr kwargs \<Rightarrow> Inr (IndexSet kwargs))"

text \<open>Numbers, booleans and None ignore their keyword arguments.\<close>

definition indices_of_number :: "'v \<Rightarrow> int option \<Rightarrow> name_to_dim option \<Rightarrow> error + IndexSet" where
  "indices_of_number value event_dim name_to_dim = Inr (IndexSet [])"

definition indices_of_bool :: "bool \<Rightarrow> int option \<Rightarrow> name_to_dim option \<Rightarrow> error + IndexSet" where
  "indices_of_bool value event_dim name_to_dim = Inr (IndexSet [])"

definition indices_of_none :: "int option \<Rightarrow> name_to_dim option \<Rightarrow> error + IndexSet" where
  "indices_of_none event_dim name_to_dim = Inr (IndexSet [])"

definition indices_of_tensor ::
  "plates \<Rightarrow> 'a tensor \<Rightarrow> int option \<Rightarrow> name_to_dim option \<Rightarrow> error + IndexSet" where
  "indices_of_tensor index_plates value event_dim name_to_dim =
     indices_of_shape index_plates (shape value) event_dim name_to_dim"

text \<open>
  The dispatch of \<open>indices_of\<close> on the type of its argument, for the value types the
  claims are about.
\<close>

datatype 'a pyvalue =
  Number 'a | Bool bool | NoneValue | Size "nat list" | Tensor "'a tensor"

fun indices_of ::
  "plates \<Rightarrow> 'a pyvalue \<Rightarrow> int option \<Rightarrow> name_to_dim option \<Rightarrow> error + IndexSet" where
  "indices_of P (Number x) event_dim name_to_dim = indices_of_number x event_dim name_to_dim"
| "indices_of P (Bool b) event_dim name_to_dim = indices_of_bool b event_dim name_to_dim"
| "indices_of P NoneValue event_dim name_to_dim = indices_of_none event_dim name_to_dim"
| "indices_of P (Size s) event_dim name_to_dim = indices_of_shape P s event_dim name_to_dim"
| "indices_of P (Tensor t) event_dim name_to_dim = indices_of_tensor P t event_dim name_to_dim"

text \<open>The axis of a shape that a negative offset names.\<close>

definition axis_of :: "nat list \<Rightarrow> int \<Rightarrow> nat" where
  "axis_of s dim = nat (int (length s) + dim)"

section \<open>scatter\<close>

text \<open>
  \<open>_scatter_tensor\<close>, in its four steps. First the value is gathered again and the
  index set is merged with the indices the gathered value carries.
\<close>

definition scatter_prepare ::
  "plates \<Rightarrow> 'a tensor \<Rightarrow> IndexSet \<Rightarrow> int option \<Rightarrow> name_to_dim option \<Rightarrow>
   error + 'a tensor \<times> IndexSet" where
  "scatter_prepare index_plates value indexset event_dim name_to_dim =
     (let e = default_event_dim event_dim;
          m = default_name_to_dim index_plates name_to_dim
      in case gather_tensor index_plates value indexset (Some e) (Some m) of
           Inl err \<Rightarrow> Inl err
         | Inr value1 \<Rightarrow>
             (case indices_of_tensor index_plates value1 (Some e) (Some m) of
                Inl err \<Rightarrow> Inl err
              | Inr ix \<Rightarrow> Inr (value1, union_indexset indexset ix)))"

text \<open>
  The allocation of \<open>result\<close> when none is given: the length of the all-ones shape is
  \<open>max([event_dim - f.dim for f in index_plates.values()] + [0])\<close>; then every name of
  the merged index set has its axis set to the size of its plate. \<open>index_plates[name]\<close>
  and \<open>name_to_dim[name]\<close> raise KeyError, the assignment to the list raises IndexError.
\<close>

definition ones_length :: "plates \<Rightarrow> int \<Rightarrow> nat" where
  "ones_length index_plates e =
     nat (Max (set (map (\<lambda>(name, f). e - frame_dim f) index_plates @ [0])))"

fun set_plate_sizes ::
  "plates \<Rightarrow> name_to_dim \<Rightarrow> int \<Rightarrow> IndexSet \<Rightarrow> nat list \<Rightarrow> error + nat list" where
  "set_plate_sizes index_plates m e [] result_shape = Inr result_shape"
| "set_plate_sizes index_plates m e ((name, indices) # items) result_shape =
     (case map_of index_plates name of
        None \<Rightarrow> Inl KeyError
      | Some f \<Rightarrow>
          (case map_of m name of
             None \<Rightarrow> Inl KeyError
           | Some d \<Rightarrow>
               (case py_setitem result_shape (d - e) (frame_size f) of
                  Inl err \<Rightarrow> Inl err
                | Inr result_shape1 \<Rightarrow> set_plate_sizes index_plates m e items result_shape1)))"

definition allocate_result ::
  "plates \<Rightarrow> name_to_dim \<Rightarrow> int \<Rightarrow> 'a tensor \<Rightarrow> IndexSet \<Rightarrow> error + 'a::zero tensor" where
  "allocate_result index_plates m e value indexset =
     (case broadcast_shapes (shape value) (replicate (ones_length index_plates e) 1) of
        Inl err \<Rightarrow> Inl err
      | Inr result_shape \<Rightarrow>
          (case set_plate_sizes index_plates m e indexset result_shape of
             Inl err \<Rightarrow> Inl err
           | Inr result_shape1 \<Rightarrow> Inr (new_zeros result_shape1)))"

text \<open>
  The index: one \<open>arange\<close> per axis of \<open>result\<close>, reshaped to stand along its own
  axis, and then, for every name of the merged index set whose axis of \<open>result\<close> is
  longer than 1, the sorted indices in its place.
\<close>

definition arange_index :: "nat list \<Rightarrow> nat tensor list" where
  "arange_index result_shape =
     map (\<lambda>i. reshape_col [0..<result_shape ! i] (int (length result_shape) - 1 - int i))
       [0..<length result_shape]"

fun override_index ::
  "name_to_dim \<Rightarrow> int \<Rightarrow> nat list \<Rightarrow> IndexSet \<Rightarrow> nat tensor list \<Rightarrow> error + nat tensor list" where
  "override_index m e result_shape [] index = Inr index"
| "override_index m e result_shape ((name, indices) # items) index =
     (case map_of m name of
        None \<Rightarrow> Inl KeyError
      | Some d \<Rightarrow>
          (case py_getitem result_shape (d - e) of
             Inl err \<Rightarrow> Inl err
           | Inr n \<Rightarrow>
               if n > 1
               then
                 (case py_setitem index (d - e)
                         (reshape_col (sorted_list_of_set indices) (e - d - 1)) of
                    Inl err \<Rightarrow> Inl err
                  | Inr index1 \<Rightarrow> override_index m e result_shape items index1)
               else override_index m e result_shape items index))"

text \<open>
  The function returns \<open>result\<close> after the assignment: the tensor it returns is the
  content of the accumulator it was given (or has allocated) after the call.
\<close>

definition scatter_tensor ::
  "plates \<Rightarrow> 'a::zero tensor \<Rightarrow> IndexSet \<Rightarrow> 'a tensor option \<Rightarrow> int option \<Rightarrow>
   name_to_dim option \<Rightarrow> error + 'a tensor" where
  "scatter_tensor index_plates value indexset result event_dim name_to_dim =
     (let e = default_event_dim event_dim;
          m = default_name_to_dim index_plates name_to_dim
      in case scatter_prepare index_plates value indexset event_dim name_to_dim of
           Inl err \<Rightarrow> Inl err
         | Inr (value1, indexset1) \<Rightarrow>
             (case (case result of
                      None \<Rightarrow> allocate_result index_plates m e value1 indexset1
                    | Some r \<Rightarrow> Inr r) of
                Inl err \<Rightarrow> Inl err
              | Inr result1 \<Rightarrow>
                  (case override_index m e (shape result1) indexset1
                          (arange_index (shape result1)) of
                     Inl err \<Rightarrow> Inl err
                   | Inr index \<Rightarrow> index_put result1 index value1)))"

definition scatter_number ::
  "plates \<Rightarrow> 'a::zero \<Rightarrow> IndexSet \<Rightarrow> 'a tensor option \<Rightarrow> int option \<Rightarrow> name_to_dim option \<Rightarrow>
   error + 'a tensor" where
  "scatter_number index_plates value indexset result event_dim name_to_dim =
     (if event_dim = None \<or> event_dim = Some 0
      then scatter_tensor index_plates (as_tensor value) indexset result event_dim name_to_dim
      else Inl AssertionError)"

text \<open>
  The values of a partition are numbers or tensors (a Python bool is a number here);
  \<open>scatter\<close> dispatches on them.
\<close>

datatype 'a scatter_value = NumberValue 'a | TensorValue "'a tensor"

fun scatter ::
  "plates \<Rightarrow> 'a::zero scatter_value \<Rightarrow> IndexSet \<Rightarrow> 'a tensor option \<Rightarrow> int option \<Rightarrow>
   name_to_dim option \<Rightarrow> error + 'a tensor" where
  "scatter index_plates (NumberValue x) indexset result event_dim name_to_dim =
     scatter_number index_plates x indexset result event_dim name_to_dim"
| "scatter index_plates (TensorValue t) indexset result event_dim name_to_dim =
     scatter_tensor index_plates t indexset result event_dim name_to_dim"

text \<open>
  \<open>_scatter_dict\<close>. A key of the dictionary is an IndexSet or some other hashable
  value. What the call can change is the registry (through the handlers of the
  \<open>add_indices\<close> effect, a parameter here), the record of the \<open>add_indices\<close> calls and
  the accumulator \<open>result\<close>; the function returns them with its outcome.
\<close>

datatype key = IndexSetKey IndexSet | OtherKey string

fun isinstance_IndexSet :: "key \<Rightarrow> bool" where
  "isinstance_IndexSet (IndexSetKey ix) = True"
| "isinstance_IndexSet (OtherKey k) = False"

fun the_IndexSet :: "key \<Rightarrow> IndexSet" where
  "the_IndexSet (IndexSetKey ix) = ix"
| "the_IndexSet (OtherKey k) = []"

record 'a world =
  registry :: plates
  add_indices_calls :: "IndexSet list"
  accumulator :: "'a tensor option"

fun scatter_partitions ::
  "plates \<Rightarrow> (key \<times> 'a::zero scatter_value) list \<Rightarrow> 'a tensor option \<Rightarrow> int option \<Rightarrow>
   name_to_dim option \<Rightarrow> error option \<times> 'a tensor option" where
  "scatter_partitions index_plates [] result event_dim name_to_dim = (None, result)"
| "scatter_partitions index_plates ((indices, value) # items) result event_dim name_to_dim =
     (case scatter index_plates value (the_IndexSet indices) result event_dim name_to_dim of
        Inl err \<Rightarrow> (Some err, result)
      | Inr r \<Rightarrow> scatter_partitions index_plates items (Some r) event_dim name_to_dim)"

definition scatter_dict ::
  "(IndexSet \<Rightarrow> plates \<Rightarrow> plates) \<Rightarrow> 'a::zero world \<Rightarrow> (key \<times> 'a scatter_value) list \<Rightarrow>
   int option \<Rightarrow> name_to_dim option \<Rightarrow> (error + 'a tensor option) \<times> 'a world" where
  "scatter_dict add_indices_handler w partitioned_values event_dim name_to_dim =
     (if \<not> length partitioned_values > 0 then (Inl AssertionError, w)
      else if \<not> list_all (\<lambda>(k, v). isinstance_IndexSet k) partitioned_values
      then (Inl AssertionError, w)
      else
        (let u = fold (\<lambda>(k, v) acc. union_indexset acc (the_IndexSet k)) partitioned_values [];
             w1 = w\<lparr>registry := add_indices_handler u (registry w),
                    add_indices_calls := add_indices_calls w @ [u]\<rparr>
         in case scatter_partitions (registry w1) partitioned_values (accumulator w1)
                   event_dim name_to_dim of
              (Some err, acc) \<Rightarrow> (Inl err, w1\<lparr>accumulator := acc\<rparr>)
            | (None, acc) \<Rightarrow> (Inr acc, w1\<lparr>accumulator := acc\<rparr>)))"

section \<open>The interruption event loop\<close>

text \<open>
  The handler stack holds the event loop itself, interruptions (each an instance \<open>'h\<close>
  with a \<open>used\<close> flag) and other messengers. \<open>block_messengers\<close> puts a trivial
  messenger in the place of every messenger its predicate holds for.
\<close>

datatype 'h messenger = InterruptionEventLoop nat | Interruption 'h | Messenger

definition block_messengers :: "('h messenger \<Rightarrow> bool) \<Rightarrow> 'h messenger list \<Rightarrow> 'h messenger list" where
  "block_messengers predicate stack = map (\<lambda>m. if predicate m then Messenger else m) stack"

text \<open>
  The two predicates of the loop: \<open>isinstance(m, Interruption) and m.used\<close> and
  \<open>isinstance(m, Interruption) and m not in terminal_interruptions\<close>.
\<close>

fun interruption_used :: "'h set \<Rightarrow> 'h messenger \<Rightarrow> bool" where
  "interruption_used U (Interruption h) = (h \<in> U)"
| "interruption_used U m = False"

fun interruption_not_in :: "'h list \<Rightarrow> 'h messenger \<Rightarrow> bool" where
  "interruption_not_in hs (Interruption h) = (h \<notin> set hs)"
| "interruption_not_in hs m = False"

text \<open>
  The operations of chirho.dynamical.internals.solver are effects whose result depends on
  the handlers that are live when they are called: each is a parameter that takes the
  stack the loop leaves visible.
\<close>

record ('h, 'sv, 'd, 's, 't) solver_ops =
  get_next_interruptions :: "'h messenger list \<Rightarrow> 'sv \<Rightarrow> 'd \<Rightarrow> 's \<Rightarrow> 't \<Rightarrow> 't \<Rightarrow> 'h list \<times> 't"
  simulate_to_interruption :: "'h messenger list \<Rightarrow> 'sv \<Rightarrow> 'd \<Rightarrow> 's \<Rightarrow> 't \<Rightarrow> 't \<Rightarrow> 's"
  apply_interruptions :: "'h messenger list \<Rightarrow> 'd \<Rightarrow> 's \<Rightarrow> 'd \<times> 's"

text \<open>
  One iteration as the loop ran it, kept in a trace next to the loop's variables: the
  \<open>used\<close> flags on entry, the stack visible to discovery and integration, the terminal
  interruptions found, the span integrated and the stack visible to the effect phase.
\<close>

record ('h, 't) iteration =
  used_before :: "'h set"
  live :: "'h messenger list"
  terminal :: "'h list"
  integrated_from :: 't
  integrated_to :: 't
  firing :: "'h messenger list"

record ('h, 'd, 's, 't) loop_state =
  dynamics :: 'd
  state :: 's
  start_time :: 't
  used :: "'h set"
  trace :: "('h, 't) iteration list"

definition loop_body ::
  "('h, 'sv, 'd, 's, 't) solver_ops \<Rightarrow> 'h messenger \<Rightarrow> 'h messenger list \<Rightarrow> 'sv \<Rightarrow> 't \<Rightarrow>
   ('h, 'd, 's, 't) loop_state \<Rightarrow> ('h, 'd, 's, 't) loop_state" where
  "loop_body ops self stack solver end_time st =
     (let stack1 = block_messengers
            (\<lambda>m. m = self \<or> interruption_used (used st) m) stack;
          (terminal_interruptions, interruption_time) =
            get_next_interruptions ops stack1 solver (dynamics st) (state st) (start_time st) end_time;
          state1 = simulate_to_interruption ops stack1 solver (dynamics st) (state st)
                     (start_time st) interruption_time;
          used1 = used st \<union> set terminal_interruptions;
          stack2 = block_messengers
            (interruption_not_in terminal_interruptions) stack;
          (dynamics2, state2) = apply_interruptions ops stack2 (dynamics st) state1
      in \<lparr>dynamics = dynamics2, state = state2, start_time = interruption_time, used = used1,
          trace = trace st @
            [\<lparr>used_before = used st, live = stack1, terminal = terminal_interruptions,
              integrated_from = start_time st, integrated_to = interruption_time,
              firing = stack2\<rparr>]\<rparr>)"

text \<open>The \<open>while\<close> loop; a run that never ends is \<open>None\<close>.\<close>

partial_function (option) event_loop ::
  "('h, 'sv, 'd, 's, 't::linorder) solver_ops \<Rightarrow> 'h messenger \<Rightarrow> 'h messenger list \<Rightarrow> 'sv \<Rightarrow> 't \<Rightarrow>
   ('h, 'd, 's, 't) loop_state \<Rightarrow> ('h, 'd, 's, 't) loop_state option" where
  "event_loop ops self stack solver end_time st =
     (if start_time st < end_time
      then event_loop ops self stack solver end_time (loop_body ops self stack solver end_time st)
      else Some st)"

text \<open>The loop cut after at most \<open>n\<close> iterations: every finite prefix of a run.\<close>

fun event_loop_steps ::
  "nat \<Rightarrow> ('h, 'sv, 'd, 's, 't::linorder) solver_ops \<Rightarrow> 'h messenger \<Rightarrow> 'h messenger list \<Rightarrow> 'sv \<Rightarrow> 't \<Rightarrow>
   ('h, 'd, 's, 't) loop_state \<Rightarrow> ('h, 'd, 's, 't) loop_state" where
  "event_loop_steps 0 ops self stack solver end_time st = st"
| "event_loop_steps (Suc n) ops self stack solver end_time st =
     (if start_time st < end_time
      then event_loop_steps n ops self stack solver end_time
             (loop_body ops self stack solver end_time st)
      else st)"

text \<open>
  \<open>_pyro_simulate\<close>: the arguments of the message, the solver of the keyword
  arguments or the default one, the loop; \<open>msg["value"]\<close> is the \<open>state\<close> of the
  result.
\<close>

definition pyro_simulate ::
  "('h, 'sv, 'd, 's, 't::linorder) solver_ops \<Rightarrow> 'h messenger \<Rightarrow> 'h messenger list \<Rightarrow> 'h set \<Rightarrow>
   'sv \<Rightarrow> 'd \<times> 's \<times> 't \<times> 't \<Rightarrow> 'sv option \<Rightarrow> ('h, 'd, 's, 't) loop_state option" where
  "pyro_simulate ops self stack used0 get_solver args kwargs_solver =
     (case args of (dynamics0, state0, start_time0, end_time) \<Rightarrow>
        let solver = (case kwargs_solver of Some sv \<Rightarrow> sv | None \<Rightarrow> get_solver)
        in event_loop ops self stack solver end_time
             \<lparr>dynamics = dynamics0, state = state0, start_time = start_time0, used = used0,
              trace = []\<rparr>)"

text \<open>
  Two assumptions on \<open>get_next_interruptions\<close>: it reports only interruptions that
  are live on the stack it sees; it never finds an interruption before the end time.
\<close>

definition reports_live_only :: "('h, 'sv, 'd, 's, 't) solver_ops \<Rightarrow> bool" where
  "reports_live_only ops =
     (\<forall>stack solver d s t0 t1. \<forall>h \<in> set (fst (get_next_interruptions ops stack solver d s t0 t1)).
        Interruption h \<in> set stack)"

definition no_interruption_before :: "('h, 'sv, 'd, 's, 't) solver_ops \<Rightarrow> 't \<Rightarrow> bool" where
  "no_interruption_before ops end_time =
     (\<forall>stack solver d s t0. snd (get_next_interruptions ops stack solver d s t0 end_time) = end_time)"

text \<open>
  What a trace of iterations must satisfy, \<open>U\<close> being the interruptions used at its end:
  the terminal interruptions of an iteration are used on entry of every later one; used
  interruptions are not visible to discovery and integration; an interruption visible to
  an effect phase is a terminal one of that iteration; and no interruption is visible to
  the effect phase of more than one iteration.
\<close>

definition single_fire :: "'h set \<Rightarrow> ('h, 't) iteration list \<Rightarrow> bool" where
  "single_fire U tr =
     ((\<forall>i < length tr. \<forall>k < i. set (terminal (tr ! k)) \<subseteq> used_before (tr ! i)) \<and>
      (\<forall>it \<in> set tr. set (terminal it) \<subseteq> U \<and> used_before it \<subseteq> U) \<and>
      (\<forall>it \<in> set tr. \<forall>h \<in> used_before it. Interruption h \<notin> set (live it)) \<and>
      (\<forall>it \<in> set tr. \<forall>h. Interruption h \<in> set (firing it) \<longrightarrow> h \<in> set (terminal it)) \<and>
      (\<forall>h. length (filter (\<lambda>it. Interruption h \<in> set (firing it)) tr) \<le> 1))"

section \<open>Well-formed arguments\<close>

text \<open>
  The dimensions of \<open>name_to_dim\<close>, once \<open>event_dim\<close> is subtracted, are distinct
  negative offsets from the last axis.
\<close>

definition plate_dims_ok :: "name_to_dim \<Rightarrow> int \<Rightarrow> bool" where
  "plate_dims_ok m e \<longleftrightarrow> distinct (map snd m) \<and> list_all (\<lambda>(name, d). d - e < 0) m"

text \<open>
  An IndexSet as the code builds it: a dictionary (no key twice) of finite, non-empty sets.
\<close>

definition wf_IndexSet :: "IndexSet \<Rightarrow> bool" where
  "wf_IndexSet ix \<longleftrightarrow> distinct (map fst ix) \<and> list_all (\<lambda>(k, vs). finite vs \<and> vs \<noteq> {}) ix"

text \<open>The requested indices of every registered name lie inside the size of its plate.\<close>

definition within_plates :: "plates \<Rightarrow> IndexSet \<Rightarrow> bool" where
  "within_plates index_plates ix \<longleftrightarrow>
     list_all (\<lambda>(name, indices).
        case map_of index_plates name of
          None \<Rightarrow> True
        | Some f \<Rightarrow> indices \<subseteq> {0..<frame_size f}) ix"

text \<open>
  The shapes of index tensors that stand each along its own axis: the \<open>i\<close>-th has its
  length first and then one axis of length 1 for every later axis.
\<close>

fun stair :: "nat list \<Rightarrow> nat list list" where
  "stair [] = []"
| "stair (l # ls) = (l # replicate (length ls) 1) # stair ls"

text \<open>A tensor as its shape and the row-major list of its elements.\<close>

definition to_list :: "'a tensor \<Rightarrow> nat list \<times> 'a list" where
  "to_list t = (shape t, map (elem t) (all_indices (shape t)))"

text \<open>The composition the inverse law is about: scatter into a fresh accumulator, then gather.\<close>

definition gather_after_scatter ::
  "plates \<Rightarrow> 'a::zero tensor \<Rightarrow> IndexSet \<Rightarrow> int option \<Rightarrow> name_to_dim option \<Rightarrow> error + 'a tensor" where
  "gather_after_scatter index_plates v indexset event_dim name_to_dim =
     (case scatter_tensor index_plates v indexset None event_dim name_to_dim of
        Inl err \<Rightarrow> Inl err
      | Inr r \<Rightarrow> gather_tensor index_plates r indexset event_dim name_to_dim)"

text \<open>
  An index set fully covers named axes: each of its names is a registered plate of
  positive size, and the requested indices are the plate's whole range.
\<close>

definition covers :: "plates \<Rightarrow> IndexSet \<Rightarrow> bool" where
  "covers index_plates ix \<longleftrightarrow>
     distinct (map fst ix) \<and>
     list_all (\<lambda>(name, indices).
        case map_of index_plates name of
          None \<Rightarrow> False
        | Some f \<Rightarrow> 0 < frame_size f \<and> indices = {0..<frame_size f}) ix"

text \<open>
  A tensor fits the registry: along every plate axis that it has, its length is 1 or the
  size of the plate.
\<close>

definition fits :: "plates \<Rightarrow> int \<Rightarrow> 'a tensor \<Rightarrow> bool" where
  "fits index_plates e v \<longleftrightarrow>
     list_all (\<lambda>(name, f).
        - (frame_dim f - e) \<le> int (length (shape v)) \<longrightarrow>
        shape v ! axis_of (shape v) (frame_dim f - e) = 1 \<or>
        shape v ! axis_of (shape v) (frame_dim f - e) = frame_size f) index_plates"

section \<open>Example inputs\<close>

definition ex_P1 :: plates where
  "ex_P1 = [(''X'', \<lparr>frame_name = ''X'', frame_dim = -1, frame_size = 3\<rparr>)]"

definition ex_v1 :: "int tensor" where
  "ex_v1 = \<lparr>shape = [3], elem = (\<lambda>j. 10 * int (j ! 0))\<rparr>"

definition ex_P2 :: plates where
  "ex_P2 = [(''X'', \<lparr>frame_name = ''X'', frame_dim = -1, frame_size = 3\<rparr>),
         (''Y'', \<lparr>frame_name = ''Y'', frame_dim = -2, frame_size = 2\<rparr>),
         (''Z'', \<lparr>frame_name = ''Z'', frame_dim = -3, frame_size = 2\<rparr>)]"

definition ex_stack :: "nat messenger list" where
  "ex_stack = [InterruptionEventLoop 0, Interruption 2, Interruption 5]"

definition ex_ops :: "(nat, unit, unit, nat list, nat) solver_ops" where
  "ex_ops =
     \<lparr>get_next_interruptions = (\<lambda>stack solver d s start t1.
          case filter (\<lambda>h. Interruption h \<in> set stack \<and> h < t1) [2, 5] of
            [] \<Rightarrow> ([], t1)
          | h # hs \<Rightarrow> ([h], h)),
      simulate_to_interruption = (\<lambda>stack solver d s start t1. s),
      apply_interruptions = (\<lambda>stack d s.
          (d, s @ filter (\<lambda>h. Interruption h \<in> set stack) [2, 5]))\<rparr>"

definition quiet_ops :: "(nat, unit, unit, nat list, nat) solver_ops" where
  "quiet_ops =
     \<lparr>get_next_interruptions = (\<lambda>stack solver d s start t1. ([], t1)),
      simulate_to_interruption = (\<lambda>stack solver d s t0 t1. s @ [t0, t1]),
      apply_interruptions = (\<lambda>stack d s. (d, s))\<rparr>"

definition ex_v3 :: "int tensor" where
  "ex_v3 = \<lparr>shape = [3], elem = (\<lambda>j. 10 + 10 * int (j ! 0))\<rparr>"

definition ex_r6 :: "int tensor" where
  "ex_r6 = \<lparr>shape = [1, 2, 3], elem = (\<lambda>j. 1 + 3 * int (j ! 1) + int (j ! 2))\<rparr>"

definition ex_v2 :: "int tensor" where
  "ex_v2 = \<lparr>shape = [2], elem = (\<lambda>j. 10 + 10 * int (j ! 0))\<rparr>"

definition ex_v4 :: "int tensor" where
  "ex_v4 = \<lparr>shape = [4], elem = (\<lambda>j. 10 + 10 * int (j ! 0))\<rparr>"

section \<open>Properties of gather\<close>

lemma py_norm_neg:
  "i < 0 \<Longrightarrow> - i \<le> int n \<Longrightarrow> py_norm n i = Inr (nat (int n + i))"
  by (simp add: py_norm_def)

lemma py_getitem_neg:
  "i < 0 \<Longrightarrow> - i \<le> int (length xs) \<Longrightarrow> py_getitem xs i = Inr (xs ! nat (int (length xs) + i))"
  by (simp add: py_getitem_def py_norm_neg)

lemma py_norm_inside:
  "- int n \<le> i \<Longrightarrow> i < int n \<Longrightarrow> py_norm n i = Inr (py_axis n i)"
  by (simp add: py_norm_def py_axis_def Let_def)

lemma py_getitem_inside:
  "- int (length xs) \<le> i \<Longrightarrow> i < int (length xs) \<Longrightarrow>
     py_getitem xs i = Inr (xs ! py_axis (length xs) i)"
  by (simp add: py_getitem_def py_norm_inside)

lemma strict_sorted_list_of_set: "sorted_wrt (<) (sorted_list_of_set (A::nat set))"
  by (simp add: strict_sorted_iff)

text \<open>
  C10: gathering with the empty IndexSet returns the tensor itself, for every event\_dim
  and every name\_to\_dim; nothing is selected and nothing is raised.
\<close>

theorem gather_empty_indexset:
  "gather_tensor index_plates v (IndexSet []) event_dim name_to_dim = Inr v"
  by (simp add: gather_tensor_def IndexSet_def)

text \<open>
  C2: gather handles the pairs of the index set one after the other, each at the axis
  \<open>name_to_dim[name] - event_dim\<close> (a negative offset from the last axis, or a position
  from the first that the tensor has). When the tensor has too few axes for it, or the axis
  has length 1, the pair leaves the tensor as it is and raises nothing. Otherwise the axis
  then holds exactly the requested indices, sorted ascending without repetition: its length
  is the number of indices, and position \<open>k\<close> along it reads the \<open>k\<close>-th smallest
  requested index of the input. (An index outside the axis makes the selection raise
  IndexError.)
\<close>

theorem gather_tensor_step:
  assumes m: "map_of (default_name_to_dim index_plates name_to_dim) name = Some d"
    and inside: "d - default_event_dim event_dim < int (length (shape v))"
  shows "let dim = d - default_event_dim event_dim;
             n = length (shape v);
             a = py_axis n dim;
             idx = sorted_list_of_set indices
         in (int n < - dim \<or> shape v ! a = 1 \<longrightarrow>
               gather_tensor index_plates v ((name, indices) # items) event_dim name_to_dim =
               gather_tensor index_plates v items event_dim name_to_dim) \<and>
            (\<not> (int n < - dim \<or> shape v ! a = 1) \<and> finite indices \<and>
               (\<forall>i\<in>indices. i < shape v ! a) \<longrightarrow>
               gather_tensor index_plates v ((name, indices) # items) event_dim name_to_dim =
               gather_tensor index_plates
                 \<lparr>shape = (shape v)[a := card indices],
                  elem = (\<lambda>j. elem v (j[a := idx ! (j ! a)]))\<rparr>
                 items event_dim name_to_dim \<and>
               sorted_wrt (<) idx \<and> set idx = indices) \<and>
            (\<not> (int n < - dim \<or> shape v ! a = 1) \<and> finite indices \<and>
               \<not> (\<forall>i\<in>indices. i < shape v ! a) \<longrightarrow>
               gather_tensor index_plates v ((name, indices) # items) event_dim name_to_dim =
               Inl IndexError)"
proof -
  define dim where "dim = d - default_event_dim event_dim"
  define a where "a = py_axis (length (shape v)) dim"
  have get: "py_getitem (shape v) dim = Inr (shape v ! a)"
    and norm: "py_norm (length (shape v)) dim = Inr a"
    if "\<not> int (length (shape v)) < - dim"
    using that inside by (simp_all add: py_getitem_inside py_norm_inside dim_def a_def)
  show ?thesis
    unfolding Let_def dim_def [symmetric] a_def [symmetric]
    using m get norm
    by (auto simp: gather_tensor_def Let_def dim_def [symmetric] index_select_def
        strict_sorted_list_of_set)
qed

theorem gather_tensor_step_witness:
  "map_of (default_name_to_dim ex_P1 None) ''X'' = Some (- 1) \<and>
   - 1 - default_event_dim None < int (length (shape ex_v1)) \<and>
   gather_tensor ex_P1 ex_v1 [(''X'', {2, 0})] None None =
     Inr \<lparr>shape = [2], elem = (\<lambda>j. elem ex_v1 (j[0 := [0, 2] ! (j ! 0)]))\<rparr>"
proof -
  have h1: "map_of (default_name_to_dim ex_P1 None) ''X'' = Some (- 1)"
    by (simp add: ex_P1_def default_name_to_dim_def)
  have h2: "- 1 - default_event_dim None < int (length (shape ex_v1))"
    by (simp add: default_event_dim_def ex_v1_def)
  have "gather_tensor ex_P1 ex_v1 [(''X'', {2, 0})] None None =
        gather_tensor ex_P1 \<lparr>shape = [2], elem = (\<lambda>j. elem ex_v1 (j[0 := [0, 2] ! (j ! 0)]))\<rparr>
          [] None None"
    using gather_tensor_step [OF h1 h2, of "{2, 0}" "[]"]
    by (simp add: Let_def ex_v1_def default_event_dim_def py_axis_def numeral_2_eq_2)
  then show ?thesis
    using h1 h2 by (simp add: gather_tensor_def)
qed

section \<open>Properties of indices\_of\<close>

lemma indices_of_shape_items_neg:
  assumes "\<forall>(name, dim) \<in> set m. dim < 0"
  shows "indices_of_shape_items t m =
     Inr (map (\<lambda>(name, dim). (name, {0..<t ! axis_of t dim}))
           (filter (\<lambda>(name, dim). - dim \<le> int (length t) \<and> 1 < t ! axis_of t dim) m))"
  using assms
proof (induction m)
  case Nil
  show ?case by simp
next
  case (Cons p m)
  obtain name dim where p: "p = (name, dim)" by (cases p)
  from Cons.prems p have neg: "dim < 0" by simp
  from Cons have IH: "indices_of_shape_items t m =
     Inr (map (\<lambda>(name, dim). (name, {0..<t ! axis_of t dim}))
           (filter (\<lambda>(name, dim). - dim \<le> int (length t) \<and> 1 < t ! axis_of t dim) m))"
    by simp
  show ?case
  proof (cases "- dim \<le> int (length t)")
    case True
    with neg have "py_getitem t dim = Inr (t ! axis_of t dim)"
      by (simp add: py_getitem_neg axis_of_def)
    with True IH p show ?thesis by simp
  next
    case False
    with IH p show ?thesis by simp
  qed
qed

lemma IndexSet_nonempty:
  "\<forall>(k, vs) \<in> set kw. vs \<noteq> {} \<Longrightarrow> IndexSet kw = kw"
  by (induction kw) (auto simp: IndexSet_def)

lemma indices_of_shape_items_inside:
  assumes "\<forall>(name, dim) \<in> set m. dim < int (length t)"
  shows "indices_of_shape_items t m =
     Inr (map (\<lambda>(name, dim). (name, {0..<t ! py_axis (length t) dim}))
           (filter (\<lambda>(name, dim). - dim \<le> int (length t) \<and> 1 < t ! py_axis (length t) dim) m))"
  using assms
proof (induction m)
  case Nil
  show ?case by simp
next
  case (Cons p m)
  obtain name dim where p: "p = (name, dim)" by (cases p)
  from Cons.prems p have ins: "dim < int (length t)" by simp
  from Cons have IH: "indices_of_shape_items t m =
     Inr (map (\<lambda>(name, dim). (name, {0..<t ! py_axis (length t) dim}))
           (filter (\<lambda>(name, dim). - dim \<le> int (length t) \<and> 1 < t ! py_axis (length t) dim) m))"
    by simp
  show ?case
  proof (cases "- dim \<le> int (length t)")
    case True
    with ins have "py_getitem t dim = Inr (t ! py_axis (length t) dim)"
      by (simp add: py_getitem_inside)
    with True IH p show ?thesis by simp
  next
    case False
    with IH p show ?thesis by simp
  qed
qed

text \<open>
  C3: for a shape \<open>s\<close>, an event\_dim between 0 and the length of \<open>s\<close>, and plate
  dimensions that do not point beyond the trimmed shape, indices\_of first drops the
  event\_dim trailing axes and then returns the IndexSet that holds
  \<open>name \<mapsto> {0, ..., length - 1}\<close> exactly for the pairs (name, dim) with \<open>-dim\<close> at most
  the length of the trimmed shape and the trimmed shape's axis at \<open>dim\<close> longer than 1.
  In particular it is empty when all the named axes have length 1.
\<close>

theorem indices_of_shape_spec:
  assumes e: "0 \<le> default_event_dim event_dim"
             "default_event_dim event_dim \<le> int (length s)"
    and inside: "\<forall>(name, dim) \<in> set (default_name_to_dim index_plates name_to_dim).
                   dim < int (length s) - default_event_dim event_dim"
  shows "let m = default_name_to_dim index_plates name_to_dim;
             t = take (length s - nat (default_event_dim event_dim)) s;
             axis = (\<lambda>dim. t ! py_axis (length t) dim);
             named = filter (\<lambda>(name, dim). - dim \<le> int (length t) \<and> 1 < axis dim) m
         in indices_of_shape index_plates s event_dim name_to_dim =
              Inr (map (\<lambda>(name, dim). (name, {0..<axis dim})) named) \<and>
            ((\<forall>(name, dim) \<in> set m. - dim \<le> int (length t) \<longrightarrow> axis dim = 1) \<longrightarrow>
               indices_of_shape index_plates s event_dim name_to_dim = Inr (IndexSet []))"
proof -
  define m where "m = default_name_to_dim index_plates name_to_dim"
  define t where "t = take (length s - nat (default_event_dim event_dim)) s"
  define named where
    "named = filter (\<lambda>(name, dim). - dim \<le> int (length t) \<and> 1 < t ! py_axis (length t) dim) m"
  have take: "py_take (int (length s) - default_event_dim event_dim) s = t"
    using e by (simp add: py_take_def t_def nat_diff_distrib)
  have lt: "int (length t) = int (length s) - default_event_dim event_dim"
    using e by (simp add: t_def)
  have items: "indices_of_shape_items t m =
      Inr (map (\<lambda>(name, dim). (name, {0..<t ! py_axis (length t) dim})) named)"
    unfolding named_def using inside
    by (intro indices_of_shape_items_inside) (simp add: m_def lt)
  have "IndexSet (map (\<lambda>(name, dim). (name, {0..<t ! py_axis (length t) dim})) named) =
        map (\<lambda>(name, dim). (name, {0..<t ! py_axis (length t) dim})) named"
    by (rule IndexSet_nonempty) (auto simp: named_def)
  with items take have main: "indices_of_shape index_plates s event_dim name_to_dim =
      Inr (map (\<lambda>(name, dim). (name, {0..<t ! py_axis (length t) dim})) named)"
    by (simp add: indices_of_shape_def m_def [symmetric])
  have "named = []"
    if "\<forall>(name, dim) \<in> set m. - dim \<le> int (length t) \<longrightarrow> t ! py_axis (length t) dim = 1"
    using that unfolding named_def by (auto simp: filter_empty_conv)
  then have "indices_of_shape index_plates s event_dim name_to_dim = Inr (IndexSet [])"
    if "\<forall>(name, dim) \<in> set m. - dim \<le> int (length t) \<longrightarrow> t ! py_axis (length t) dim = 1"
    using that main by (simp add: IndexSet_def)
  with main show ?thesis
    unfolding Let_def m_def [symmetric] t_def [symmetric] named_def [symmetric] by blast
qed

theorem indices_of_shape_spec_witness:
  "0 \<le> default_event_dim (Some 1) \<and>
   default_event_dim (Some 1) \<le> int (length [1, 3, 4 :: nat]) \<and>
   indices_of_shape ex_P2 [1, 3, 4] (Some 1) None = Inr [(''X'', {0..<3})] \<and>
   indices_of_shape ex_P2 [1, 1, 4] (Some 1) None = Inr (IndexSet [])"
proof -
  have e: "0 \<le> default_event_dim (Some 1)" "default_event_dim (Some 1) \<le> int (length [1, 3, 4 :: nat])"
    "default_event_dim (Some 1) \<le> int (length [1, 1, 4 :: nat])"
    by (simp_all add: default_event_dim_def)
  have inside: "\<forall>(name, dim) \<in> set (default_name_to_dim ex_P2 None).
      dim < int (length [1, 3, 4 :: nat]) - default_event_dim (Some 1)"
    "\<forall>(name, dim) \<in> set (default_name_to_dim ex_P2 None).
      dim < int (length [1, 1, 4 :: nat]) - default_event_dim (Some 1)"
    by (simp_all add: default_name_to_dim_def default_event_dim_def ex_P2_def)
  have "indices_of_shape ex_P2 [1, 3, 4] (Some 1) None = Inr [(''X'', {0..<3})]"
    using indices_of_shape_spec [OF e(1) e(2) inside(1)]
    by (simp add: Let_def default_event_dim_def default_name_to_dim_def ex_P2_def py_axis_def)
  moreover have "indices_of_shape ex_P2 [1, 1, 4] (Some 1) None = Inr (IndexSet [])"
    using indices_of_shape_spec [OF e(1) e(3) inside(2)]
    by (simp add: Let_def default_event_dim_def default_name_to_dim_def ex_P2_def py_axis_def
        IndexSet_def)
  ultimately show ?thesis using e by simp
qed

text \<open>
  C4, as the code has it: indices\_of on a number or a boolean returns the empty IndexSet
  for every event\_dim, zero or not; it never fails.
\<close>

theorem indices_of_number_bool_total:
  "indices_of P (Number x) event_dim name_to_dim = Inr (IndexSet []) \<and>
   indices_of P (Bool b) event_dim name_to_dim = Inr (IndexSet [])"
  by (simp add: indices_of_number_def indices_of_bool_def)

text \<open>
  The claim C4 as stated fails: with event\_dim 2 the call returns the empty IndexSet for
  the number 3 and for True, and raises nothing.
\<close>

theorem indices_of_number_event_dim_counterexample:
  "indices_of [] (Number (3::int)) (Some 2) None = Inr (IndexSet []) \<and>
   indices_of [] (Bool True :: int pyvalue) (Some 2) None = Inr (IndexSet [])"
  by (simp add: indices_of_number_def indices_of_bool_def)

section \<open>Properties of scatter\<close>

subsection \<open>Positions of a shape\<close>

lemma set_all_indices: "set (all_indices s) = {j. valid_index s j}"
proof (induction s)
  case Nil
  show ?case by (auto simp: valid_index_def)
next
  case (Cons n s)
  show ?case
  proof (intro set_eqI iffI)
    fix j assume "j \<in> set (all_indices (n # s))"
    then obtain i t where "i < n" "t \<in> set (all_indices s)" "j = i # t" by auto
    with Cons show "j \<in> {j. valid_index (n # s) j}" by (simp add: valid_index_def)
  next
    fix j assume "j \<in> {j. valid_index (n # s) j}"
    then obtain i t where j: "j = i # t" and "i < n" "valid_index s t"
      by (auto simp: valid_index_def list_all2_Cons2)
    with Cons have "t \<in> set (all_indices s)" by simp
    with \<open>i < n\<close> j show "j \<in> set (all_indices (n # s))" by auto
  qed
qed

lemma valid_index_length: "valid_index s j \<Longrightarrow> length j = length s"
  by (simp add: valid_index_def list_all2_lengthD)

lemma valid_index_nth: "valid_index s j \<Longrightarrow> i < length s \<Longrightarrow> j ! i < s ! i"
  by (simp add: valid_index_def list_all2_nthD2)

subsection \<open>Broadcasting\<close>

lemma expandable_iff:
  "expandable s b \<longleftrightarrow>
     length s \<le> length b \<and>
     (\<forall>i < length s. s ! i = b ! (i + (length b - length s)) \<or> s ! i = 1)"
  by (auto simp: expandable_def list_all2_conv_all_nth add.commute)

lemma expandable_refl: "expandable s s"
  by (simp add: expandable_iff)

lemma expandable_trans:
  assumes "expandable s b" "expandable b c"
  shows "expandable s c"
proof -
  from assms have len: "length s \<le> length b" "length b \<le> length c"
    by (simp_all add: expandable_iff)
  have "s ! i = c ! (i + (length c - length s)) \<or> s ! i = 1" if i: "i < length s" for i
  proof (cases "s ! i = 1")
    case False
    with assms(1) i have sb: "s ! i = b ! (i + (length b - length s))"
      by (auto simp: expandable_iff)
    from i len have "i + (length b - length s) < length b" by simp
    with assms(2) have "b ! (i + (length b - length s)) =
        c ! (i + (length b - length s) + (length c - length b)) \<or>
        b ! (i + (length b - length s)) = 1"
      unfolding expandable_iff by blast
    moreover from len have "i + (length b - length s) + (length c - length b) =
        i + (length c - length s)" by simp
    ultimately show ?thesis using sb False by simp
  qed simp
  with len show ?thesis by (simp add: expandable_iff)
qed

lemma broadcast_rev_expandable:
  "broadcast_rev xs ys = Inr zs \<Longrightarrow>
     length zs = max (length xs) (length ys) \<and>
     (\<forall>i < length xs. xs ! i = zs ! i \<or> xs ! i = 1) \<and>
     (\<forall>i < length ys. ys ! i = zs ! i \<or> ys ! i = 1)"
proof (induction xs ys arbitrary: zs rule: broadcast_rev.induct)
  case (1 ys)
  then show ?case by simp
next
  case (2 x xs)
  then show ?case by simp
next
  case (3 x xs y ys)
  from "3.prems" obtain zs' where rec: "broadcast_rev xs ys = Inr zs'"
    by (auto split: sum.splits)
  note IH = "3.IH" [OF rec]
  from "3.prems" rec have zs: "zs = (if x = y \<or> y = 1 then x else y) # zs'" and ok: "x = y \<or> y = 1 \<or> x = 1"
    by (auto split: if_splits)
  show ?case
    using IH zs ok by (auto simp: nth_Cons')
qed

lemma nth_rev_alt: "i < length xs \<Longrightarrow> xs ! i = rev xs ! (length xs - 1 - i)"
  by (simp add: rev_nth)

lemma broadcast_shapes_expandable:
  assumes "broadcast_shapes a b = Inr c"
  shows "expandable a c" and "expandable b c" and "length c = max (length a) (length b)"
proof -
  from assms obtain zs where rv: "broadcast_rev (rev a) (rev b) = Inr zs" and c: "c = rev zs"
    by (auto simp: broadcast_shapes_def split: sum.splits)
  from broadcast_rev_expandable [OF rv]
  have len: "length zs = max (length a) (length b)"
    and A: "\<forall>i < length a. rev a ! i = zs ! i \<or> rev a ! i = 1"
    and B: "\<forall>i < length b. rev b ! i = zs ! i \<or> rev b ! i = 1"
    by simp_all
  show "length c = max (length a) (length b)" using len c by simp
  have ex: "expandable s c"
    if s: "length s \<le> length zs" "\<forall>i < length s. rev s ! i = zs ! i \<or> rev s ! i = 1" for s
  proof -
    have "s ! i = c ! (i + (length c - length s)) \<or> s ! i = 1" if i: "i < length s" for i
    proof -
      let ?k = "length s - 1 - i"
      from i have k: "?k < length s" by simp
      with s have "rev s ! ?k = zs ! ?k \<or> rev s ! ?k = 1" by blast
      moreover from i have "rev s ! ?k = s ! i" by (simp add: rev_nth)
      moreover from i s c have "c ! (i + (length c - length s)) = zs ! ?k"
        by (simp add: rev_nth)
      ultimately show ?thesis by simp
    qed
    with s c show ?thesis by (simp add: expandable_iff)
  qed
  show "expandable a c" using ex [of a] A len by simp
  show "expandable b c" using ex [of b] B len by simp
qed

lemma broadcast_all_expandable:
  "broadcast_all ss = Inr b \<Longrightarrow> s \<in> set ss \<Longrightarrow> expandable s b"
proof (induction ss arbitrary: b)
  case Nil
  then show ?case by simp
next
  case (Cons t ss)
  from Cons.prems(1) obtain b' where rec: "broadcast_all ss = Inr b'"
    and b: "broadcast_shapes t b' = Inr b"
    by (auto split: sum.splits)
  show ?case
  proof (cases "s = t")
    case True
    with b show ?thesis by (simp add: broadcast_shapes_expandable)
  next
    case False
    with Cons.prems(2) have "s \<in> set ss" by simp
    from Cons.IH [OF rec this] broadcast_shapes_expandable(2) [OF b]
    show ?thesis by (rule expandable_trans)
  qed
qed

lemma length_bc_at: "length s \<le> length p \<Longrightarrow> length (bc_at s p) = length s"
  by (simp add: bc_at_def)

lemma nth_bc_at:
  "length s \<le> length p \<Longrightarrow> i < length s \<Longrightarrow>
     bc_at s p ! i = (if s ! i = 1 then 0 else p ! (i + (length p - length s)))"
  by (simp add: bc_at_def add.commute)

lemma valid_index_bc_at:
  assumes "expandable s b" "valid_index b p"
  shows "valid_index s (bc_at s p)"
proof -
  from assms have len: "length s \<le> length b" "length p = length b"
    by (simp_all add: expandable_iff valid_index_length)
  have "bc_at s p ! i < s ! i" if i: "i < length s" for i
  proof (cases "s ! i = 1")
    case True
    with i len show ?thesis by (simp add: nth_bc_at)
  next
    case False
    with assms(1) i have "s ! i = b ! (i + (length b - length s))"
      by (auto simp: expandable_iff)
    moreover from i len have "p ! (i + (length b - length s)) < b ! (i + (length b - length s))"
      by (intro valid_index_nth [OF assms(2)]) simp
    ultimately show ?thesis using False i len by (simp add: nth_bc_at)
  qed
  with len show ?thesis
    by (simp add: valid_index_def list_all2_conv_all_nth length_bc_at)
qed

lemma bc_at_self: "valid_index s p \<Longrightarrow> bc_at s p = p"
  by (auto simp: bc_at_def valid_index_def list_all2_conv_all_nth intro!: nth_equalityI)

subsection \<open>The index tensors and the assignment\<close>

lemma shape_reshape_col [simp]: "shape (reshape_col xs k) = length xs # replicate (nat k) 1"
  by (simp add: reshape_col_def)

lemma elem_reshape_col [simp]: "elem (reshape_col xs k) q = xs ! (q ! 0)"
  by (simp add: reshape_col_def)

lemma reshape_col_reads_entry:
  assumes "expandable (shape (reshape_col xs k)) b" "valid_index b p"
  shows "elem (reshape_col xs k) (bc_at (shape (reshape_col xs k)) p) \<in> set xs"
proof -
  from valid_index_bc_at [OF assms]
  have "bc_at (shape (reshape_col xs k)) p ! 0 < length xs"
    by (auto simp: valid_index_def list_all2_Cons2)
  then show ?thesis by simp
qed

lemma find_Some_mem: "find Q xs = Some x \<Longrightarrow> x \<in> set xs \<and> Q x"
  by (induction xs) (auto split: if_splits)

lemma index_put_Inr:
  assumes "index_put r index v = Inr r'"
  shows "\<exists>b. broadcast_all (map shape index) = Inr b \<and>
     length index = length (shape r) \<and>
     expandable (dropWhile (\<lambda>n. n = 1) (shape v)) b \<and>
     (\<forall>p \<in> set (all_indices b).
        valid_index (shape r) (map (\<lambda>ix. elem ix (bc_at (shape ix) p)) index)) \<and>
     shape r' = shape r \<and>
     (\<forall>j. elem r' j =
           (case find (\<lambda>p. map (\<lambda>ix. elem ix (bc_at (shape ix) p)) index = j)
                   (rev (all_indices b)) of
              None \<Rightarrow> elem r j
            | Some p \<Rightarrow>
                elem v (replicate (length (shape v) - length (dropWhile (\<lambda>n. n = 1) (shape v))) 0 @
                        bc_at (dropWhile (\<lambda>n. n = 1) (shape v)) p)))"
proof -
  from assms have len: "length index = length (shape r)"
    unfolding index_put_def by (cases "length index = length (shape r)") simp_all
  from assms len obtain b where b: "broadcast_all (map shape index) = Inr b"
    unfolding index_put_def by (cases "broadcast_all (map shape index)") simp_all
  from assms len b have ex: "expandable (dropWhile (\<lambda>n. n = 1) (shape v)) b"
    unfolding index_put_def Let_def
    by (cases "expandable (dropWhile (\<lambda>n. n = 1) (shape v)) b") simp_all
  from assms len b ex have ok: "\<forall>p \<in> set (all_indices b).
      valid_index (shape r) (map (\<lambda>ix. elem ix (bc_at (shape ix) p)) index)"
    unfolding index_put_def Let_def
    by (cases "\<forall>p \<in> set (all_indices b).
      valid_index (shape r) (map (\<lambda>ix. elem ix (bc_at (shape ix) p)) index)") simp_all
  from assms len b ex ok have "r' = \<lparr>shape = shape r,
      elem = (\<lambda>j. (case find (\<lambda>p. map (\<lambda>ix. elem ix (bc_at (shape ix) p)) index = j)
                   (rev (all_indices b)) of
              None \<Rightarrow> elem r j
            | Some p \<Rightarrow>
                elem v (replicate (length (shape v) - length (dropWhile (\<lambda>n. n = 1) (shape v))) 0 @
                        bc_at (dropWhile (\<lambda>n. n = 1) (shape v)) p)))\<rparr>"
    unfolding index_put_def Let_def by (simp del: One_nat_def)
  then have "shape r' = shape r" and "\<forall>j. elem r' j =
           (case find (\<lambda>p. map (\<lambda>ix. elem ix (bc_at (shape ix) p)) index = j)
                   (rev (all_indices b)) of
              None \<Rightarrow> elem r j
            | Some p \<Rightarrow>
                elem v (replicate (length (shape v) - length (dropWhile (\<lambda>n. n = 1) (shape v))) 0 @
                        bc_at (dropWhile (\<lambda>n. n = 1) (shape v)) p))"
    by simp_all
  with b len ex ok show ?thesis by blast
qed

lemma index_put_frame:
  assumes "index_put r index v = Inr r'"
  shows "shape r' = shape r"
    and "elem r' j \<noteq> elem r j \<Longrightarrow>
         \<exists>b p. broadcast_all (map shape index) = Inr b \<and> valid_index b p \<and>
               valid_index (shape r) j \<and>
               j = map (\<lambda>ix. elem ix (bc_at (shape ix) p)) index"
proof -
  from index_put_Inr [OF assms] obtain b where b: "broadcast_all (map shape index) = Inr b"
    and ok: "\<forall>p \<in> set (all_indices b).
           valid_index (shape r) (map (\<lambda>ix. elem ix (bc_at (shape ix) p)) index)"
    and sh: "shape r' = shape r"
    and el: "\<And>j. elem r' j =
           (case find (\<lambda>p. map (\<lambda>ix. elem ix (bc_at (shape ix) p)) index = j)
                   (rev (all_indices b)) of
              None \<Rightarrow> elem r j
            | Some p \<Rightarrow>
                elem v (replicate (length (shape v) - length (dropWhile (\<lambda>n. n = 1) (shape v))) 0 @
                        bc_at (dropWhile (\<lambda>n. n = 1) (shape v)) p))"
    by blast
  show "shape r' = shape r" by (rule sh)
  assume "elem r' j \<noteq> elem r j"
  then obtain p where f: "find (\<lambda>p. map (\<lambda>ix. elem ix (bc_at (shape ix) p)) index = j)
      (rev (all_indices b)) = Some p"
    unfolding el by (cases "find (\<lambda>p. map (\<lambda>ix. elem ix (bc_at (shape ix) p)) index = j)
      (rev (all_indices b))") auto
  from find_Some_mem [OF f] have "p \<in> set (all_indices b)"
    and "map (\<lambda>ix. elem ix (bc_at (shape ix) p)) index = j" by simp_all
  with ok b show "\<exists>b p. broadcast_all (map shape index) = Inr b \<and> valid_index b p \<and>
      valid_index (shape r) j \<and> j = map (\<lambda>ix. elem ix (bc_at (shape ix) p)) index"
    by (auto simp: set_all_indices)
qed

subsection \<open>The override of the index\<close>

lemma plate_dims_okD:
  assumes "plate_dims_ok m e" "map_of m name = Some d"
  shows "d - e < 0"
  using assms map_of_SomeD [of m name d] by (auto simp: plate_dims_ok_def list_all_iff)

lemma plate_dims_ok_inj:
  assumes "plate_dims_ok m e" "map_of m name = Some d" "map_of m name' = Some d"
  shows "name = name'"
proof -
  from assms have "(name, d) \<in> set m" "(name', d) \<in> set m"
    by (auto dest: map_of_SomeD)
  moreover from assms(1) have "inj_on snd (set m)"
    by (simp add: plate_dims_ok_def distinct_map)
  ultimately show ?thesis
    using inj_onD [of snd "set m" "(name, d)" "(name', d)"] by simp
qed

lemma py_getitem_Inr_neg:
  assumes "py_getitem xs i = Inr n" "i < 0"
  shows "- i \<le> int (length xs)" and "n = xs ! axis_of xs i" and "axis_of xs i < length xs"
  using assms by (auto simp: py_getitem_def py_norm_def axis_of_def Let_def split: if_splits)

lemma py_setitem_neg:
  "i < 0 \<Longrightarrow> - i \<le> int (length xs) \<Longrightarrow> py_setitem xs i v = Inr (xs[axis_of xs i := v])"
  by (simp add: py_setitem_def py_norm_neg axis_of_def)

lemma axis_of_inj:
  assumes "i < 0" "k < 0" "- i \<le> int n" "- k \<le> int n" "length xs = n"
    "axis_of xs i = axis_of xs k"
  shows "i = k"
  using assms by (simp add: axis_of_def)

lemma axis_of_same_length: "length xs = length ys \<Longrightarrow> axis_of xs i = axis_of ys i"
  by (simp add: axis_of_def)

lemma override_index_in_range:
  assumes "override_index m e rs items index0 = Inr index" "plate_dims_ok m e"
    "(name, S) \<in> set items"
  shows "\<exists>d. map_of m name = Some d \<and> - (d - e) \<le> int (length rs)"
  using assms
proof (induction items arbitrary: index0)
  case Nil
  then show ?case by simp
next
  case (Cons it items)
  obtain name0 S0 where it: "it = (name0, S0)" by (cases it)
  from Cons.prems(1) it obtain d0 where d0: "map_of m name0 = Some d0"
    by (auto split: option.splits)
  from Cons.prems(1) it d0 obtain n where n: "py_getitem rs (d0 - e) = Inr n"
    by (auto split: sum.splits)
  from plate_dims_okD [OF Cons.prems(2) d0] have neg: "d0 - e < 0" .
  from Cons.prems(1) it d0 n obtain index1 where
    rec: "override_index m e rs items index1 = Inr index"
    by (auto split: if_splits sum.splits)
  show ?case
  proof (cases "(name, S) = it")
    case True
    with it d0 py_getitem_Inr_neg(1) [OF n neg] show ?thesis by auto
  next
    case False
    with Cons.prems(3) have "(name, S) \<in> set items" by simp
    from Cons.IH [OF rec Cons.prems(2) this] show ?thesis .
  qed
qed

lemma override_index_spec:
  "override_index m e rs items index0 = Inr index \<Longrightarrow> plate_dims_ok m e \<Longrightarrow>
   distinct (map fst items) \<Longrightarrow> length index0 = length rs \<Longrightarrow>
   length index = length rs \<and>
   (\<forall>name S d. (name, S) \<in> set items \<longrightarrow> map_of m name = Some d \<longrightarrow>
        1 < rs ! axis_of rs (d - e) \<longrightarrow>
        index ! axis_of rs (d - e) = reshape_col (sorted_list_of_set S) (e - d - 1)) \<and>
   (\<forall>i < length rs.
        (\<forall>(name, S) \<in> set items. \<forall>d. map_of m name = Some d \<longrightarrow>
            1 < rs ! axis_of rs (d - e) \<longrightarrow> axis_of rs (d - e) \<noteq> i) \<longrightarrow>
        index ! i = index0 ! i)"
proof (induction items arbitrary: index0)
  case Nil
  then show ?case by simp
next
  case (Cons it items)
  obtain name0 S0 where it: "it = (name0, S0)" by (cases it)
  note ov = Cons.prems(1)
  note ok = Cons.prems(2)
  note len0 = Cons.prems(4)
  from Cons.prems(3) it
  have dk: "distinct (map fst items)" and fresh: "name0 \<notin> fst ` set items" by simp_all
  from ov it obtain d0 where d0: "map_of m name0 = Some d0"
    by (auto split: option.splits)
  from ov it d0 obtain n where n: "py_getitem rs (d0 - e) = Inr n"
    by (auto split: sum.splits)
  from plate_dims_okD [OF ok d0] have neg: "d0 - e < 0" .
  note rng = py_getitem_Inr_neg [OF n neg]
  define a0 where "a0 = axis_of rs (d0 - e)"
  define index1 where "index1 =
    (if 1 < n then index0[a0 := reshape_col (sorted_list_of_set S0) (e - d0 - 1)] else index0)"
  have set1: "py_setitem index0 (d0 - e) x = Inr (index0[a0 := x])" for x
    using neg rng(1) len0 by (simp add: py_setitem_def py_norm_neg a0_def axis_of_def)
  from ov it d0 n have rec: "override_index m e rs items index1 = Inr index"
    by (auto simp: index1_def set1 split: if_splits)
  have len1: "length index1 = length rs" using len0 by (simp add: index1_def)
  from Cons.IH [OF rec ok dk len1]
  have IH1: "length index = length rs"
    and IH2: "\<And>name S d. (name, S) \<in> set items \<Longrightarrow> map_of m name = Some d \<Longrightarrow>
        1 < rs ! axis_of rs (d - e) \<Longrightarrow>
        index ! axis_of rs (d - e) = reshape_col (sorted_list_of_set S) (e - d - 1)"
    and IH3: "\<And>i. i < length rs \<Longrightarrow>
        (\<forall>(name, S) \<in> set items. \<forall>d. map_of m name = Some d \<longrightarrow>
            1 < rs ! axis_of rs (d - e) \<longrightarrow> axis_of rs (d - e) \<noteq> i) \<Longrightarrow>
        index ! i = index1 ! i"
    by blast+
  have other: "axis_of rs (d - e) \<noteq> a0"
    if "(name, S) \<in> set items" "map_of m name = Some d" for name S d
  proof
    assume eq: "axis_of rs (d - e) = a0"
    from override_index_in_range [OF rec ok that(1)] that(2)
    have "- (d - e) \<le> int (length rs)" by simp
    with eq neg rng(1) plate_dims_okD [OF ok that(2)] have "d - e = d0 - e"
      unfolding a0_def by (intro axis_of_inj [of _ _ "length rs" rs]) simp_all
    with plate_dims_ok_inj [OF ok that(2), of name0] d0 have "name = name0" by simp
    with that(1) fresh show False by force
  qed
  have P2: "index ! axis_of rs (d - e) = reshape_col (sorted_list_of_set S) (e - d - 1)"
    if 2: "(name, S) \<in> set (it # items)" "map_of m name = Some d" "1 < rs ! axis_of rs (d - e)"
    for name S d
  proof (cases "(name, S) \<in> set items")
    case True
    from IH2 [OF True 2(2) 2(3)] show ?thesis .
  next
    case False
    with 2(1) it have eq: "name = name0" "S = S0" by simp_all
    with 2(2) d0 have d: "d = d0" by simp
    from 2(3) d rng(2) have big: "1 < n" by simp
    have "index ! a0 = index1 ! a0"
      using other rng(3) by (intro IH3) (auto simp: a0_def)
    also have "\<dots> = reshape_col (sorted_list_of_set S0) (e - d0 - 1)"
      using big rng(3) len0 by (simp add: index1_def a0_def)
    finally show ?thesis using eq d by (simp add: a0_def)
  qed
  have P3: "index ! i = index0 ! i"
    if 3: "i < length rs" "\<forall>(name, S) \<in> set (it # items). \<forall>d. map_of m name = Some d \<longrightarrow>
            1 < rs ! axis_of rs (d - e) \<longrightarrow> axis_of rs (d - e) \<noteq> i" for i
  proof -
    from 3(2) have rest: "\<forall>(name, S) \<in> set items. \<forall>d. map_of m name = Some d \<longrightarrow>
        1 < rs ! axis_of rs (d - e) \<longrightarrow> axis_of rs (d - e) \<noteq> i" by simp
    from 3(2) it d0 rng(2) have "1 < n \<longrightarrow> a0 \<noteq> i" by (auto simp: a0_def)
    then have "index1 ! i = index0 ! i" by (simp add: index1_def)
    with IH3 [OF 3(1) rest] show ?thesis by simp
  qed
  from IH1 P2 P3 show ?case by blast
qed

lemma distinct_IndexSet: "distinct (map fst kw) \<Longrightarrow> distinct (map fst (IndexSet kw))"
  by (simp add: IndexSet_def distinct_map_filter)

lemma distinct_union_indexset: "distinct (map fst (union_indexset a b))"
  unfolding union_indexset_def by (rule distinct_IndexSet) (simp add: comp_def)

lemma set_sorted_list_of_set_subset: "set (sorted_list_of_set S) \<subseteq> S"
  by (cases "finite S") simp_all

lemma scatter_prepare_distinct:
  "scatter_prepare P value ix ed ntd = Inr (value1, merged) \<Longrightarrow> distinct (map fst merged)"
  by (auto simp: scatter_prepare_def Let_def distinct_union_indexset split: sum.splits)

lemma length_arange_index [simp]: "length (arange_index rs) = length rs"
  by (simp add: arange_index_def)

lemma scatter_tensor_Some:
  assumes "scatter_prepare P value ix ed ntd = Inr (value1, merged)"
    and "scatter_tensor P value ix (Some r) ed ntd = Inr r'"
  shows "\<exists>index. override_index (default_name_to_dim P ntd) (default_event_dim ed) (shape r) merged
            (arange_index (shape r)) = Inr index \<and>
          index_put r index value1 = Inr r'"
  using assms by (auto simp: scatter_tensor_def Let_def split: sum.splits)

lemma written_coordinate:
  assumes ov: "override_index m e rs merged (arange_index rs) = Inr index"
    and ok: "plate_dims_ok m e" and dk: "distinct (map fst merged)"
    and b: "broadcast_all (map shape index) = Inr b" and p: "valid_index b p"
    and mem: "(name, S) \<in> set merged" and d: "map_of m name = Some d"
    and big: "1 < rs ! axis_of rs (d - e)"
  shows "map (\<lambda>ix. elem ix (bc_at (shape ix) p)) index ! axis_of rs (d - e) \<in> S"
proof -
  let ?a = "axis_of rs (d - e)"
  from override_index_spec [OF ov ok dk] mem d big
  have len: "length index = length rs"
    and col: "index ! ?a = reshape_col (sorted_list_of_set S) (e - d - 1)"
    by auto
  from override_index_in_range [OF ov ok mem] d plate_dims_okD [OF ok d]
  have a: "?a < length rs" by (auto simp: axis_of_def)
  with len have "index ! ?a \<in> set index" by simp
  then have "shape (index ! ?a) \<in> set (map shape index)" by simp
  from broadcast_all_expandable [OF b this] col
  have "expandable (shape (reshape_col (sorted_list_of_set S) (e - d - 1))) b" by simp
  from reshape_col_reads_entry [OF this p] set_sorted_list_of_set_subset [of S]
  have "elem (index ! ?a) (bc_at (shape (index ! ?a)) p) \<in> S"
    unfolding col by blast
  with a len show ?thesis by simp
qed

text \<open>
  C7: scatter with a supplied accumulator \<open>r\<close> returns \<open>r\<close> after the assignment, and
  the assignment writes only where the merged index set points: the result has the shape
  of \<open>r\<close>, and every position whose element differs from the one \<open>r\<close> held before
  the call is a position of \<open>r\<close> whose coordinate along each named axis of length
  greater than 1 is one of that name's indices in the merged index set (along every other
  axis it is any coordinate of the axis). All other positions hold the element they held
  before. The dimensions of name\_to\_dim are distinct negative offsets.
\<close>

theorem scatter_tensor_frame:
  assumes prep: "scatter_prepare index_plates value indexset event_dim name_to_dim =
      Inr (value1, merged)"
    and run: "scatter_tensor index_plates value indexset (Some r) event_dim name_to_dim = Inr r'"
    and ok: "plate_dims_ok (default_name_to_dim index_plates name_to_dim)
      (default_event_dim event_dim)"
  shows "shape r' = shape r \<and>
    (\<forall>j. elem r' j \<noteq> elem r j \<longrightarrow>
       valid_index (shape r) j \<and>
       (\<forall>(name, indices) \<in> set merged. \<forall>d.
          map_of (default_name_to_dim index_plates name_to_dim) name = Some d \<and>
          1 < shape r ! axis_of (shape r) (d - default_event_dim event_dim) \<longrightarrow>
          j ! axis_of (shape r) (d - default_event_dim event_dim) \<in> indices))"
proof -
  define m where "m = default_name_to_dim index_plates name_to_dim"
  define e where "e = default_event_dim event_dim"
  from scatter_tensor_Some [OF prep run] obtain index where
    ov: "override_index m e (shape r) merged (arange_index (shape r)) = Inr index"
    and put: "index_put r index value1 = Inr r'"
    unfolding m_def e_def by blast
  note dk = scatter_prepare_distinct [OF prep]
  have "valid_index (shape r) j \<and>
       (\<forall>(name, indices) \<in> set merged. \<forall>d.
          map_of m name = Some d \<and> 1 < shape r ! axis_of (shape r) (d - e) \<longrightarrow>
          j ! axis_of (shape r) (d - e) \<in> indices)"
    if "elem r' j \<noteq> elem r j" for j
  proof -
    from index_put_frame(2) [OF put that] obtain b p where
      b: "broadcast_all (map shape index) = Inr b" and p: "valid_index b p"
      and v: "valid_index (shape r) j"
      and j: "j = map (\<lambda>ix. elem ix (bc_at (shape ix) p)) index"
      by blast
    from written_coordinate [OF ov ok [folded m_def e_def] dk b p] j v
    show ?thesis by auto
  qed
  with index_put_frame(1) [OF put] show ?thesis
    unfolding m_def e_def by blast
qed

lemma py_setitem_Inr_neg:
  assumes "py_setitem xs i v = Inr ys" "i < 0"
  shows "- i \<le> int (length xs)" and "ys = xs[axis_of xs i := v]" and "axis_of xs i < length xs"
  using assms by (auto simp: py_setitem_def py_norm_def axis_of_def Let_def split: if_splits)

lemma set_plate_sizes_spec:
  "set_plate_sizes P m e items rs0 = Inr rs \<Longrightarrow> plate_dims_ok m e \<Longrightarrow>
   distinct (map fst items) \<Longrightarrow>
   length rs = length rs0 \<and>
   (\<forall>name S. (name, S) \<in> set items \<longrightarrow>
      (\<exists>d f. map_of m name = Some d \<and> map_of P name = Some f \<and>
             - (d - e) \<le> int (length rs0) \<and> rs ! axis_of rs0 (d - e) = frame_size f)) \<and>
   (\<forall>i < length rs0.
      (\<forall>(name, S) \<in> set items. \<forall>d. map_of m name = Some d \<longrightarrow> axis_of rs0 (d - e) \<noteq> i) \<longrightarrow>
      rs ! i = rs0 ! i)"
proof (induction items arbitrary: rs0)
  case Nil
  then show ?case by simp
next
  case (Cons it items)
  obtain name0 S0 where it: "it = (name0, S0)" by (cases it)
  note run = Cons.prems(1)
  note ok = Cons.prems(2)
  from Cons.prems(3) it
  have dk: "distinct (map fst items)" and fresh: "name0 \<notin> fst ` set items" by simp_all
  from run it obtain f0 where f0: "map_of P name0 = Some f0"
    by (auto split: option.splits)
  from run it f0 obtain d0 where d0: "map_of m name0 = Some d0"
    by (auto split: option.splits)
  from run it f0 d0 obtain rs1 where
    set1: "py_setitem rs0 (d0 - e) (frame_size f0) = Inr rs1"
    and rec: "set_plate_sizes P m e items rs1 = Inr rs"
    by (auto split: sum.splits)
  from plate_dims_okD [OF ok d0] have neg: "d0 - e < 0" .
  note rng = py_setitem_Inr_neg [OF set1 neg]
  define a0 where "a0 = axis_of rs0 (d0 - e)"
  have len1: "length rs1 = length rs0" using rng(2) by simp
  have ax: "axis_of rs1 i = axis_of rs0 i" for i
    using len1 by (rule axis_of_same_length)
  from Cons.IH [OF rec ok dk]
  have IH1: "length rs = length rs0"
    and IH2: "\<And>name S. (name, S) \<in> set items \<Longrightarrow>
      \<exists>d f. map_of m name = Some d \<and> map_of P name = Some f \<and>
             - (d - e) \<le> int (length rs0) \<and> rs ! axis_of rs0 (d - e) = frame_size f"
    and IH3: "\<And>i. i < length rs0 \<Longrightarrow>
      (\<forall>(name, S) \<in> set items. \<forall>d. map_of m name = Some d \<longrightarrow> axis_of rs0 (d - e) \<noteq> i) \<Longrightarrow>
      rs ! i = rs1 ! i"
    unfolding ax len1 by blast+
  have other: "axis_of rs0 (d - e) \<noteq> a0"
    if "(name, S) \<in> set items" "map_of m name = Some d" for name S d
  proof
    assume eq: "axis_of rs0 (d - e) = a0"
    from IH2 [OF that(1)] that(2) have "- (d - e) \<le> int (length rs0)" by auto
    with eq neg rng(1) plate_dims_okD [OF ok that(2)] have "d - e = d0 - e"
      unfolding a0_def by (intro axis_of_inj [of _ _ "length rs0" rs0]) simp_all
    with plate_dims_ok_inj [OF ok that(2), of name0] d0 have "name = name0" by simp
    with that(1) fresh show False by force
  qed
  have P2: "\<exists>d f. map_of m name = Some d \<and> map_of P name = Some f \<and>
             - (d - e) \<le> int (length rs0) \<and> rs ! axis_of rs0 (d - e) = frame_size f"
    if 2: "(name, S) \<in> set (it # items)" for name S
  proof (cases "(name, S) \<in> set items")
    case True
    from IH2 [OF True] show ?thesis .
  next
    case False
    with 2 it have eq: "name = name0" "S = S0" by simp_all
    have "rs ! a0 = rs1 ! a0"
      using other rng(3) by (intro IH3) (auto simp: a0_def)
    also have "\<dots> = frame_size f0"
      using rng by (simp add: a0_def)
    finally show ?thesis using eq d0 f0 rng(1) by (auto simp: a0_def)
  qed
  have P3: "rs ! i = rs0 ! i"
    if 3: "i < length rs0" "\<forall>(name, S) \<in> set (it # items). \<forall>d. map_of m name = Some d \<longrightarrow>
            axis_of rs0 (d - e) \<noteq> i" for i
  proof -
    from 3(2) have rest: "\<forall>(name, S) \<in> set items. \<forall>d. map_of m name = Some d \<longrightarrow>
        axis_of rs0 (d - e) \<noteq> i" by simp
    from 3(2) it d0 have "a0 \<noteq> i" by (auto simp: a0_def)
    then have "rs1 ! i = rs0 ! i" using rng(2) by (simp add: a0_def)
    with IH3 [OF 3(1) rest] show ?thesis by simp
  qed
  from IH1 P2 P3 show ?case by blast
qed

lemma scatter_tensor_None:
  assumes "scatter_prepare P value ix ed ntd = Inr (value1, merged)"
    and "scatter_tensor P value ix None ed ntd = Inr r"
  shows "\<exists>rs0 rs index.
      broadcast_shapes (shape value1) (replicate (ones_length P (default_event_dim ed)) 1) = Inr rs0 \<and>
      set_plate_sizes P (default_name_to_dim P ntd) (default_event_dim ed) merged rs0 = Inr rs \<and>
      override_index (default_name_to_dim P ntd) (default_event_dim ed) rs merged
          (arange_index rs) = Inr index \<and>
      index_put (new_zeros rs) index value1 = Inr r"
  using assms
  by (auto simp: scatter_tensor_def allocate_result_def Let_def new_zeros_def split: sum.splits)

subsection \<open>The broadcast of the index tensors\<close>

lemma broadcast_rev_ones_left:
  "length ys \<le> length xs \<Longrightarrow> \<forall>i < length ys. xs ! i = 1 \<Longrightarrow>
     broadcast_rev xs ys = Inr (ys @ drop (length ys) xs)"
proof (induction xs ys rule: broadcast_rev.induct)
  case (1 ys)
  then show ?case by simp
next
  case (2 x xs)
  then show ?case by simp
next
  case (3 x xs y ys)
  from "3.prems" have "x = 1" by auto
  moreover from "3.prems" have "broadcast_rev xs ys = Inr (ys @ drop (length ys) xs)"
    by (intro "3.IH") auto
  ultimately show ?case by auto
qed

lemma broadcast_shapes_stair_step:
  "broadcast_shapes (l # replicate (length ls) 1) ls = Inr (l # ls)"
proof -
  have "broadcast_rev (rev (l # replicate (length ls) 1)) (rev ls) =
      Inr (rev ls @ drop (length (rev ls)) (rev (l # replicate (length ls) 1)))"
    by (rule broadcast_rev_ones_left) (auto simp: nth_append)
  then show ?thesis by (simp add: broadcast_shapes_def)
qed

lemma broadcast_all_stair: "broadcast_all (stair ls) = Inr ls"
  by (induction ls) (simp_all add: broadcast_shapes_stair_step del: One_nat_def)

lemma stair_conv_map:
  "stair ls = map (\<lambda>i. ls ! i # replicate (length ls - 1 - i) 1) [0..<length ls]"
proof (induction ls)
  case Nil
  show ?case by simp
next
  case (Cons l ls)
  have "map (\<lambda>i. (l # ls) ! i # replicate (length (l # ls) - 1 - i) 1) [0..<length (l # ls)] =
      (l # replicate (length ls) 1) #
      map (\<lambda>i. (l # ls) ! Suc i # replicate (length ls - Suc i) 1) [0..<length ls]"
    by (simp add: upt_conv_Cons map_Suc_upt [symmetric] del: upt_Suc)
  also have "map (\<lambda>i. (l # ls) ! Suc i # replicate (length ls - Suc i) 1) [0..<length ls] =
      stair ls"
    by (simp add: Cons.IH)
  finally show ?case by simp
qed

lemma broadcast_all_cols:
  assumes "length index = n"
    and "\<forall>i < n. shape (index ! i) = ls ! i # replicate (n - 1 - i) 1"
    and "length ls = n"
  shows "broadcast_all (map shape index) = Inr ls"
proof -
  have "map shape index = stair ls"
    unfolding stair_conv_map using assms by (intro nth_equalityI) simp_all
  then show ?thesis by (simp add: broadcast_all_stair)
qed

subsection \<open>Merged index sets\<close>

lemma indices_at_mem:
  "distinct (map fst ix) \<Longrightarrow> (name, S) \<in> set ix \<Longrightarrow> indices_at ix name = S"
  by (simp add: indices_at_def)

lemma indices_at_notin: "name \<notin> fst ` set ix \<Longrightarrow> indices_at ix name = {}"
  by (simp add: indices_at_def map_of_eq_None_iff [THEN iffD2])

lemma union_indexset_mem:
  "(name, S) \<in> set (union_indexset a b) \<longleftrightarrow>
     name \<in> fst ` set a \<union> fst ` set b \<and> S = indices_at a name \<union> indices_at b name \<and> S \<noteq> {}"
  by (auto simp: union_indexset_def IndexSet_def)

lemma nth_arange_index:
  "i < length rs \<Longrightarrow>
     arange_index rs ! i = reshape_col [0..<rs ! i] (int (length rs) - 1 - int i)"
  by (simp add: arange_index_def)

lemma override_index_cols:
  assumes ov: "override_index m e rs merged (arange_index rs) = Inr index"
    and ok: "plate_dims_ok m e" and dk: "distinct (map fst merged)"
    and i: "i < length rs"
  shows "\<exists>xs. index ! i = reshape_col xs (int (length rs) - 1 - int i)"
proof (cases "\<forall>(name, S) \<in> set merged. \<forall>d. map_of m name = Some d \<longrightarrow>
    1 < rs ! axis_of rs (d - e) \<longrightarrow> axis_of rs (d - e) \<noteq> i")
  case True
  with override_index_spec [OF ov ok dk] i have "index ! i = arange_index rs ! i" by simp
  with i show ?thesis by (auto simp: nth_arange_index)
next
  case False
  then obtain name S d where mem: "(name, S) \<in> set merged" and d: "map_of m name = Some d"
    and big: "1 < rs ! axis_of rs (d - e)" and ax: "axis_of rs (d - e) = i"
    by auto
  from override_index_spec [OF ov ok dk] mem d big
  have "index ! axis_of rs (d - e) = reshape_col (sorted_list_of_set S) (e - d - 1)" by auto
  moreover from override_index_in_range [OF ov ok mem] d plate_dims_okD [OF ok d] ax
  have "e - d - 1 = int (length rs) - 1 - int i" by (auto simp: axis_of_def)
  ultimately show ?thesis using ax by auto
qed

lemma override_index_broadcast:
  assumes ov: "override_index m e rs merged (arange_index rs) = Inr index"
    and ok: "plate_dims_ok m e" and dk: "distinct (map fst merged)"
  shows "broadcast_all (map shape index) = Inr (map (\<lambda>ix. hd (shape ix)) index)"
proof (rule broadcast_all_cols [where n = "length rs"])
  from override_index_spec [OF ov ok dk] show len: "length index = length rs" by simp
  then show "length (map (\<lambda>ix. hd (shape ix)) index) = length rs" by simp
  show "\<forall>i < length rs. shape (index ! i) =
      map (\<lambda>ix. hd (shape ix)) index ! i # replicate (length rs - 1 - i) 1"
  proof (intro allI impI)
    fix i assume i: "i < length rs"
    from override_index_cols [OF ov ok dk i] obtain xs where
      "index ! i = reshape_col xs (int (length rs) - 1 - int i)" ..
    moreover from i have "nat (int (length rs) - 1 - int i) = length rs - 1 - i" by simp
    ultimately show "shape (index ! i) =
        map (\<lambda>ix. hd (shape ix)) index ! i # replicate (length rs - 1 - i) 1"
      using i len by simp
  qed
qed

lemma dropWhile_ones_nth:
  assumes "i < length xs" "xs ! i \<noteq> (1::nat)"
  shows "length xs - length (dropWhile (\<lambda>n. n = 1) xs) \<le> i"
    and "dropWhile (\<lambda>n. n = 1) xs ! (i - (length xs - length (dropWhile (\<lambda>n. n = 1) xs))) = xs ! i"
proof -
  let ?k = "length (takeWhile (\<lambda>n. n = 1) xs)"
  have d: "dropWhile (\<lambda>n. n = 1) xs = drop ?k xs" by (simp add: dropWhile_eq_drop)
  have k: "?k \<le> i"
  proof (rule ccontr)
    assume "\<not> ?k \<le> i"
    then have "i < ?k" by simp
    then have "takeWhile (\<lambda>n. n = 1) xs ! i \<in> set (takeWhile (\<lambda>n. n = 1) xs)"
      by (rule nth_mem)
    then have "takeWhile (\<lambda>n. n = 1) xs ! i = 1" by (auto dest: set_takeWhileD)
    with \<open>i < ?k\<close> assms(2) show False by (simp add: takeWhile_nth)
  qed
  have "?k \<le> length xs" by (rule length_takeWhile_le)
  then have lead: "length xs - length (dropWhile (\<lambda>n. n = 1) xs) = ?k"
    unfolding d by simp
  show "length xs - length (dropWhile (\<lambda>n. n = 1) xs) \<le> i"
    using k lead by simp
  show "dropWhile (\<lambda>n. n = 1) xs ! (i - (length xs - length (dropWhile (\<lambda>n. n = 1) xs))) = xs ! i"
    unfolding lead unfolding d using k assms(1) by simp
qed

lemma map_of_map_filter:
  "distinct (map fst m) \<Longrightarrow>
     map_of (map (\<lambda>(n, d). (n, g d)) (filter (\<lambda>(n, d). Q d) m)) name =
     (case map_of m name of None \<Rightarrow> None | Some d \<Rightarrow> if Q d then Some (g d) else None)"
proof (induction m)
  case Nil
  show ?case by simp
next
  case (Cons p m)
  obtain n d where p: "p = (n, d)" by (cases p)
  from Cons.prems p have fresh: "n \<notin> fst ` set m" and dm: "distinct (map fst m)" by simp_all
  from fresh have none: "map_of m n = None" by (simp add: map_of_eq_None_iff)
  show ?case
    using Cons.IH [OF dm] p none by (auto split: option.splits)
qed

lemma plate_dims_ok_mono: "plate_dims_ok m 0 \<Longrightarrow> 0 \<le> e \<Longrightarrow> plate_dims_ok m e"
  by (auto simp: plate_dims_ok_def list_all_iff)

lemma indices_of_tensor_spec:
  assumes ok: "plate_dims_ok m 0" and dm: "distinct (map fst m)"
    and e: "0 \<le> e" "e \<le> int (length (shape v))"
  shows "\<exists>ix2. indices_of_tensor P v (Some e) (Some m) = Inr ix2 \<and>
     (\<forall>name. indices_at ix2 name =
        (case map_of m name of
           None \<Rightarrow> {}
         | Some d \<Rightarrow>
             if - (d - e) \<le> int (length (shape v)) \<and> 1 < shape v ! axis_of (shape v) (d - e)
             then {0..<shape v ! axis_of (shape v) (d - e)} else {}))"
proof -
  define t where "t = take (length (shape v) - nat e) (shape v)"
  define Q where "Q = (\<lambda>d. - d \<le> int (length t) \<and> 1 < t ! axis_of t d)"
  define g where "g = (\<lambda>d. {0..<t ! axis_of t d})"
  define ix2 where "ix2 = map (\<lambda>(n, d). (n, g d)) (filter (\<lambda>(n, d). Q d) m)"
  have take: "py_take (int (length (shape v)) - e) (shape v) = t"
    using e by (simp add: py_take_def t_def nat_diff_distrib)
  have neg: "\<forall>(name, dim) \<in> set m. dim < 0"
    using ok by (auto simp: plate_dims_ok_def list_all_iff)
  have items: "indices_of_shape_items t m = Inr ix2"
    unfolding ix2_def g_def Q_def using indices_of_shape_items_neg [OF neg, of t]
    by (simp add: case_prod_unfold)
  have "IndexSet ix2 = ix2"
    by (rule IndexSet_nonempty) (auto simp: ix2_def g_def Q_def)
  with items take have run: "indices_of_tensor P v (Some e) (Some m) = Inr ix2"
    by (simp add: indices_of_tensor_def indices_of_shape_def default_name_to_dim_def
        default_event_dim_def)
  have lt: "int (length t) = int (length (shape v)) - e"
    using e by (simp add: t_def)
  have conv: "Q d = (- (d - e) \<le> int (length (shape v)) \<and> 1 < shape v ! axis_of (shape v) (d - e))"
    and gconv: "Q d \<Longrightarrow> g d = {0..<shape v ! axis_of (shape v) (d - e)}"
    if d: "d < 0" for d
  proof -
    have ax: "axis_of t d = axis_of (shape v) (d - e)"
      using lt by (simp add: axis_of_def)
    have nth: "t ! axis_of t d = shape v ! axis_of (shape v) (d - e)" if "- d \<le> int (length t)"
    proof -
      from that d have "axis_of t d < length t" by (auto simp: axis_of_def)
      then have "t ! axis_of t d = shape v ! axis_of t d" by (simp add: t_def)
      with ax show ?thesis by simp
    qed
    show "Q d = (- (d - e) \<le> int (length (shape v)) \<and> 1 < shape v ! axis_of (shape v) (d - e))"
      using nth lt by (auto simp: Q_def)
    show "g d = {0..<shape v ! axis_of (shape v) (d - e)}" if "Q d"
      using that nth by (simp add: g_def Q_def)
  qed
  have "indices_at ix2 name =
        (case map_of m name of
           None \<Rightarrow> {}
         | Some d \<Rightarrow>
             if - (d - e) \<le> int (length (shape v)) \<and> 1 < shape v ! axis_of (shape v) (d - e)
             then {0..<shape v ! axis_of (shape v) (d - e)} else {})" for name
  proof (cases "map_of m name")
    case None
    then show ?thesis
      by (simp add: indices_at_def ix2_def map_of_map_filter [OF dm])
  next
    case (Some d)
    with plate_dims_okD [OF ok Some] have d: "d < 0" by simp
    show ?thesis
      using Some conv [OF d] gconv [OF d]
      by (auto simp: indices_at_def ix2_def map_of_map_filter [OF dm])
  qed
  with run show ?thesis by blast
qed

lemma index_select_neg:
  assumes "index_select v dim idx = Inr r" "dim < 0" "- dim \<le> int (length (shape v))"
  shows "shape r = (shape v)[axis_of (shape v) dim := length idx]"
    and "\<forall>i \<in> set idx. i < shape v ! axis_of (shape v) dim"
    and "elem r = (\<lambda>j. elem v (j[axis_of (shape v) dim := idx ! (j ! axis_of (shape v) dim)]))"
  using assms
  by (auto simp: index_select_def py_norm_neg axis_of_def split: if_splits)

lemma gather_loop_shape:
  "gather_loop m e v items = Inr v1 \<Longrightarrow> plate_dims_ok m e \<Longrightarrow> distinct (map fst items) \<Longrightarrow>
   length (shape v1) = length (shape v) \<and>
   (\<forall>name S d. (name, S) \<in> set items \<longrightarrow> map_of m name = Some d \<longrightarrow>
        - (d - e) \<le> int (length (shape v)) \<longrightarrow>
        shape v1 ! axis_of (shape v) (d - e) =
          (if shape v ! axis_of (shape v) (d - e) = 1 then 1 else length (sorted_list_of_set S))) \<and>
   (\<forall>i < length (shape v).
        (\<forall>(name, S) \<in> set items. \<forall>d. map_of m name = Some d \<longrightarrow>
            - (d - e) \<le> int (length (shape v)) \<longrightarrow> axis_of (shape v) (d - e) \<noteq> i) \<longrightarrow>
        shape v1 ! i = shape v ! i)"
proof (induction items arbitrary: v)
  case Nil
  then show ?case by simp
next
  case (Cons it items)
  obtain name0 S0 where it: "it = (name0, S0)" by (cases it)
  note run = Cons.prems(1)
  note ok = Cons.prems(2)
  from Cons.prems(3) it
  have dk: "distinct (map fst items)" and fresh: "name0 \<notin> fst ` set items" by simp_all
  from run it obtain d0 where d0: "map_of m name0 = Some d0"
    by (auto split: option.splits)
  from plate_dims_okD [OF ok d0] have neg: "d0 - e < 0" .
  define a0 where "a0 = axis_of (shape v) (d0 - e)"
  define sel where "sel \<longleftrightarrow> - (d0 - e) \<le> int (length (shape v)) \<and> shape v ! a0 \<noteq> 1"
  have "\<exists>v2. gather_loop m e v2 items = Inr v1 \<and>
      shape v2 = (if sel then (shape v)[a0 := length (sorted_list_of_set S0)] else shape v)"
  proof (cases "- (d0 - e) \<le> int (length (shape v))")
    case False
    with run it d0 show ?thesis by (auto simp: sel_def Let_def)
  next
    case True
    with neg have get: "py_getitem (shape v) (d0 - e) = Inr (shape v ! a0)"
      by (simp add: py_getitem_neg a0_def axis_of_def)
    show ?thesis
    proof (cases "shape v ! a0 = 1")
      case one: True
      with run it d0 True get show ?thesis by (auto simp: sel_def Let_def)
    next
      case False
      with run it d0 True get obtain r where
        r: "index_select v (d0 - e) (sorted_list_of_set S0) = Inr r"
        and rec: "gather_loop m e r items = Inr v1"
        by (auto simp: Let_def split: sum.splits)
      from index_select_neg(1) [OF r neg True] False True rec show ?thesis
        by (auto simp: sel_def a0_def)
    qed
  qed
  then obtain v2 where rec: "gather_loop m e v2 items = Inr v1"
    and sh2: "shape v2 = (if sel then (shape v)[a0 := length (sorted_list_of_set S0)] else shape v)"
    by blast
  have len2: "length (shape v2) = length (shape v)" by (simp add: sh2)
  have ax: "axis_of (shape v2) i = axis_of (shape v) i" for i
    using len2 by (rule axis_of_same_length)
  from Cons.IH [OF rec ok dk]
  have IH1: "length (shape v1) = length (shape v)"
    and IH2: "\<And>name S d. (name, S) \<in> set items \<Longrightarrow> map_of m name = Some d \<Longrightarrow>
        - (d - e) \<le> int (length (shape v)) \<Longrightarrow>
        shape v1 ! axis_of (shape v) (d - e) =
          (if shape v2 ! axis_of (shape v) (d - e) = 1 then 1 else length (sorted_list_of_set S))"
    and IH3: "\<And>i. i < length (shape v) \<Longrightarrow>
        (\<forall>(name, S) \<in> set items. \<forall>d. map_of m name = Some d \<longrightarrow>
            - (d - e) \<le> int (length (shape v)) \<longrightarrow> axis_of (shape v) (d - e) \<noteq> i) \<Longrightarrow>
        shape v1 ! i = shape v2 ! i"
    unfolding ax len2 by blast+
  have other: "axis_of (shape v) (d - e) \<noteq> a0"
    if "(name, S) \<in> set items" "map_of m name = Some d" "- (d - e) \<le> int (length (shape v))"
      "- (d0 - e) \<le> int (length (shape v))" for name S d
  proof
    assume eq: "axis_of (shape v) (d - e) = a0"
    with that neg plate_dims_okD [OF ok that(2)] have "d - e = d0 - e"
      unfolding a0_def by (intro axis_of_inj [of _ _ "length (shape v)" "shape v"]) simp_all
    with plate_dims_ok_inj [OF ok that(2), of name0] d0 have "name = name0" by simp
    with that(1) fresh show False by force
  qed
  have P2: "shape v1 ! axis_of (shape v) (d - e) =
          (if shape v ! axis_of (shape v) (d - e) = 1 then 1 else length (sorted_list_of_set S))"
    if 2: "(name, S) \<in> set (it # items)" "map_of m name = Some d"
      "- (d - e) \<le> int (length (shape v))" for name S d
  proof (cases "(name, S) \<in> set items")
    case True
    have "shape v2 ! axis_of (shape v) (d - e) = shape v ! axis_of (shape v) (d - e)"
      using other [OF True 2(2) 2(3)] by (auto simp: sh2 sel_def)
    with IH2 [OF True 2(2) 2(3)] show ?thesis by simp
  next
    case False
    with 2(1) it have eq: "name = name0" "S = S0" by simp_all
    with 2(2) d0 have d: "d = d0" by simp
    from 2(3) d neg have a0: "a0 < length (shape v)" by (auto simp: a0_def axis_of_def)
    have "shape v1 ! a0 = shape v2 ! a0"
      using other 2(3) d a0 by (intro IH3) auto
    also have "\<dots> = (if shape v ! a0 = 1 then 1 else length (sorted_list_of_set S0))"
      using a0 2(3) d by (auto simp: sh2 sel_def)
    finally show ?thesis using eq d by (simp add: a0_def)
  qed
  have P3: "shape v1 ! i = shape v ! i"
    if 3: "i < length (shape v)" "\<forall>(name, S) \<in> set (it # items). \<forall>d. map_of m name = Some d \<longrightarrow>
            - (d - e) \<le> int (length (shape v)) \<longrightarrow> axis_of (shape v) (d - e) \<noteq> i" for i
  proof -
    from 3(2) have rest: "\<forall>(name, S) \<in> set items. \<forall>d. map_of m name = Some d \<longrightarrow>
        - (d - e) \<le> int (length (shape v)) \<longrightarrow> axis_of (shape v) (d - e) \<noteq> i" by simp
    from 3(2) it d0 have "sel \<longrightarrow> a0 \<noteq> i" by (auto simp: a0_def sel_def)
    then have "shape v2 ! i = shape v ! i" by (auto simp: sh2)
    with IH3 [OF 3(1) rest] show ?thesis by simp
  qed
  from IH1 P2 P3 show ?case by blast
qed

lemma scatter_prepare_Inr:
  assumes "scatter_prepare P value ix ed ntd = Inr (value1, merged)"
  shows "\<exists>ix2. gather_loop (default_name_to_dim P ntd) (default_event_dim ed) value ix = Inr value1 \<and>
     indices_of_tensor P value1 (Some (default_event_dim ed)) (Some (default_name_to_dim P ntd)) =
       Inr ix2 \<and>
     merged = union_indexset ix ix2"
  using assms
  by (auto simp: scatter_prepare_def gather_tensor_def Let_def default_event_dim_def
      default_name_to_dim_def split: sum.splits)

lemma written_requested:
  assumes prep: "scatter_prepare P value ix ed ntd = Inr (value1, merged)"
    and run: "scatter_tensor P value ix None ed ntd = Inr r"
    and ok: "plate_dims_ok (default_name_to_dim P ntd) 0"
    and dm: "distinct (map fst (default_name_to_dim P ntd))"
    and e0: "0 \<le> default_event_dim ed"
    and e1: "default_event_dim ed \<le> int (length (shape value))"
    and wf: "wf_IndexSet ix" and wp: "within_plates P ix"
    and mem: "(name, S) \<in> set ix"
    and d: "map_of (default_name_to_dim P ntd) name = Some d"
    and wr: "elem r j \<noteq> 0"
  shows "j ! axis_of (shape r) (d - default_event_dim ed) \<in> S"
proof -
  define m where "m = default_name_to_dim P ntd"
  define e where "e = default_event_dim ed"
  note ok0 = ok [folded m_def]
  note oke = plate_dims_ok_mono [OF ok0 e0 [folded e_def]]
  note d = d [folded m_def]
  from scatter_prepare_Inr [OF prep] obtain ix2 where
    gath: "gather_loop m e value ix = Inr value1"
    and iof: "indices_of_tensor P value1 (Some e) (Some m) = Inr ix2"
    and merged: "merged = union_indexset ix ix2"
    unfolding m_def e_def by blast
  from scatter_tensor_None [OF prep run] obtain rs0 rs index where
    sz: "set_plate_sizes P m e merged rs0 = Inr rs"
    and ov: "override_index m e rs merged (arange_index rs) = Inr index"
    and put: "index_put (new_zeros rs) index value1 = Inr r"
    unfolding m_def e_def by blast
  have dk: "distinct (map fst merged)" by (simp add: merged distinct_union_indexset)
  from wf mem have dix: "distinct (map fst ix)" and fin: "finite S" and ne: "S \<noteq> {}"
    by (auto simp: wf_IndexSet_def list_all_iff)
  define Sm where "Sm = S \<union> indices_at ix2 name"
  have memm: "(name, Sm) \<in> set merged"
    using mem ne indices_at_mem [OF dix mem]
    by (force simp: merged union_indexset_mem Sm_def)
  from index_put_Inr [OF put] obtain b where
    b: "broadcast_all (map shape index) = Inr b"
    and ex: "expandable (dropWhile (\<lambda>n. n = 1) (shape value1)) b"
    and shr: "shape r = rs"
    by (auto simp: new_zeros_def)
  from wr have "elem r j \<noteq> elem (new_zeros rs) j" by (simp add: new_zeros_def)
  from index_put_frame(2) [OF put this] b obtain p where
    p: "valid_index b p" and vj: "valid_index rs j"
    and j: "j = map (\<lambda>ix. elem ix (bc_at (shape ix) p)) index"
    by (auto simp: new_zeros_def)
  let ?a = "axis_of rs (d - e)"
  from set_plate_sizes_spec [OF sz oke dk] memm d obtain f where
    f: "map_of P name = Some f" and rng0: "- (d - e) \<le> int (length rs0)"
    and len: "length rs = length rs0" and size: "rs ! axis_of rs0 (d - e) = frame_size f"
    by fastforce
  have ax0: "axis_of rs0 (d - e) = ?a" using len by (simp add: axis_of_def)
  from plate_dims_okD [OF oke d] have neg: "d - e < 0" .
  from rng0 neg len have a: "?a < length rs" and inta: "int ?a = int (length rs) + (d - e)"
    by (auto simp: axis_of_def)
  from valid_index_nth [OF vj a] have ja: "j ! ?a < rs ! ?a" .
  have "j ! ?a \<in> S"
  proof (cases "1 < rs ! ?a")
    case False
    with ja have one: "rs ! ?a = 1" and j0: "j ! ?a = 0" by simp_all
    from wp mem have "case map_of P name of None \<Rightarrow> True | Some f \<Rightarrow> S \<subseteq> {0..<frame_size f}"
      unfolding within_plates_def list_all_iff by fast
    with f have "S \<subseteq> {0..<frame_size f}" by simp
    with size ax0 one have "S \<subseteq> {0}" by auto
    with ne have "0 \<in> S" by blast
    with j0 show ?thesis by simp
  next
    case True
    from written_coordinate [OF ov oke dk b p memm d True] j
    have jm: "j ! ?a \<in> Sm" by simp
    show ?thesis
    proof (cases "indices_at ix2 name = {}")
      case True
      with jm show ?thesis by (simp add: Sm_def)
    next
      case False
      from gather_loop_shape [OF gath oke dix]
      have lv: "length (shape value1) = length (shape value)"
        and gsh: "\<And>name S d. (name, S) \<in> set ix \<Longrightarrow> map_of m name = Some d \<Longrightarrow>
          - (d - e) \<le> int (length (shape value)) \<Longrightarrow>
          shape value1 ! axis_of (shape value) (d - e) =
            (if shape value ! axis_of (shape value) (d - e) = 1 then 1
             else length (sorted_list_of_set S))"
        by blast+
      let ?a1 = "axis_of (shape value1) (d - e)"
      from indices_of_tensor_spec [OF ok0 dm [folded m_def] e0 [folded e_def], of value1 P]
        e1 lv iof
      have at: "indices_at ix2 name =
          (if - (d - e) \<le> int (length (shape value1)) \<and> 1 < shape value1 ! ?a1
           then {0..<shape value1 ! ?a1} else {})"
        using d by (auto simp: e_def)
      with False have rng1: "- (d - e) \<le> int (length (shape value1))"
        and big1: "1 < shape value1 ! ?a1" and at': "indices_at ix2 name = {0..<shape value1 ! ?a1}"
        by (auto split: if_splits)
      have ax1: "axis_of (shape value) (d - e) = ?a1" using lv by (simp add: axis_of_def)
      from gsh [OF mem d] rng1 lv big1 ax1
      have L: "shape value1 ! ?a1 = length (sorted_list_of_set S)"
        by (auto split: if_splits)
      from rng1 neg have a1: "?a1 < length (shape value1)"
        and inta1: "int ?a1 = int (length (shape value1)) + (d - e)"
        by (auto simp: axis_of_def)
      let ?vs = "dropWhile (\<lambda>n. n = 1) (shape value1)"
      let ?lead = "length (shape value1) - length ?vs"
      from big1 have "shape value1 ! ?a1 \<noteq> 1" by simp
      from dropWhile_ones_nth [OF a1 this]
      have lead: "?lead \<le> ?a1" and vsn: "?vs ! (?a1 - ?lead) = shape value1 ! ?a1" .
      have lvs: "length ?vs \<le> length (shape value1)" by (rule length_dropWhile_le)
      from override_index_broadcast [OF ov oke dk] b
      have bmap: "b = map (\<lambda>ix. hd (shape ix)) index" by simp
      from override_index_spec [OF ov oke dk] memm d True
      have leni: "length index = length rs"
        and col: "index ! ?a = reshape_col (sorted_list_of_set Sm) (e - d - 1)"
        by auto
      from bmap leni a col have ba: "b ! ?a = length (sorted_list_of_set Sm)"
        and lb: "length b = length rs" by simp_all
      from ex have lenle: "length ?vs \<le> length b"
        and exn: "\<And>i. i < length ?vs \<Longrightarrow>
          ?vs ! i = b ! (i + (length b - length ?vs)) \<or> ?vs ! i = 1"
        by (auto simp: expandable_iff)
      have i': "?a1 - ?lead < length ?vs" using a1 lead lvs by linarith
      have idx: "?a1 - ?lead + (length b - length ?vs) = ?a"
        using lead lvs lenle lb inta inta1 a1 by linarith
      from exn [OF i'] vsn big1 idx ba L
      have "length (sorted_list_of_set S) = length (sorted_list_of_set Sm)" by auto
      then have "card S = card Sm" by simp
      moreover have "S \<subseteq> Sm" "finite Sm" using fin at' by (auto simp: Sm_def)
      ultimately have "S = Sm" by (simp add: card_subset_eq)
      with jm show ?thesis by simp
    qed
  qed
  with shr show ?thesis by (simp add: e_def)
qed

lemma broadcast_rev_ones_right:
  "broadcast_rev xs (replicate k 1) = Inr (xs @ replicate (k - length xs) 1)"
proof (induction xs arbitrary: k)
  case Nil
  show ?case by simp
next
  case (Cons x xs)
  show ?case
  proof (cases k)
    case 0
    then show ?thesis by simp
  next
    case (Suc k')
    with Cons [of k'] show ?thesis by simp
  qed
qed

lemma broadcast_shapes_ones:
  "broadcast_shapes s (replicate k 1) = Inr (replicate (k - length s) 1 @ s)"
  using broadcast_rev_ones_right [of "rev s" k] by (simp add: broadcast_shapes_def)

text \<open>
  C6: scatter without an accumulator returns a tensor whose shape is the broadcast of the
  re-gathered value's shape against the all-ones shape of length
  \<open>max([event_dim - f.dim for f in plates] + [0])\<close> (the value's shape padded with 1s on
  the left), except that the axis of every name of the merged index set has the total size
  of that name's plate; and every position whose coordinate along the axis of a requested
  name is not one of the requested indices is zero. Here name\_to\_dim is a dictionary of
  distinct negative offsets, event\_dim lies between 0 and the number of axes of the value,
  and the requested index set is a dictionary of finite non-empty sets inside the sizes of
  their plates.
\<close>

theorem scatter_tensor_fresh:
  assumes prep: "scatter_prepare index_plates value indexset event_dim name_to_dim =
      Inr (value1, merged)"
    and run: "scatter_tensor index_plates value indexset None event_dim name_to_dim = Inr r"
    and ok: "plate_dims_ok (default_name_to_dim index_plates name_to_dim) 0"
    and dm: "distinct (map fst (default_name_to_dim index_plates name_to_dim))"
    and e0: "0 \<le> default_event_dim event_dim"
    and e1: "default_event_dim event_dim \<le> int (length (shape value))"
    and wf: "wf_IndexSet indexset" and wp: "within_plates index_plates indexset"
  shows "let m = default_name_to_dim index_plates name_to_dim;
             e = default_event_dim event_dim;
             ones = replicate (ones_length index_plates e) 1;
             rs0 = replicate (ones_length index_plates e - length (shape value1)) 1 @ shape value1
         in broadcast_shapes (shape value1) ones = Inr rs0 \<and>
            length (shape r) = length rs0 \<and>
            (\<forall>(name, indices) \<in> set merged. \<exists>d f.
                map_of m name = Some d \<and> map_of index_plates name = Some f \<and>
                shape r ! axis_of rs0 (d - e) = frame_size f) \<and>
            (\<forall>i < length rs0.
                (\<forall>(name, indices) \<in> set merged. \<forall>d.
                    map_of m name = Some d \<longrightarrow> axis_of rs0 (d - e) \<noteq> i) \<longrightarrow>
                shape r ! i = rs0 ! i) \<and>
            (\<forall>j. (\<exists>(name, indices) \<in> set indexset. \<exists>d.
                    map_of m name = Some d \<and> j ! axis_of (shape r) (d - e) \<notin> indices) \<longrightarrow>
                elem r j = 0)"
proof -
  define m where "m = default_name_to_dim index_plates name_to_dim"
  define e where "e = default_event_dim event_dim"
  define rs0 where
    "rs0 = replicate (ones_length index_plates e - length (shape value1)) 1 @ shape value1"
  note oke = plate_dims_ok_mono [OF ok e0, folded m_def e_def]
  have bc: "broadcast_shapes (shape value1) (replicate (ones_length index_plates e) 1) = Inr rs0"
    unfolding rs0_def by (rule broadcast_shapes_ones)
  from scatter_tensor_None [OF prep run] bc obtain rs index where
    sz: "set_plate_sizes index_plates m e merged rs0 = Inr rs"
    and put: "index_put (new_zeros rs) index value1 = Inr r"
    unfolding m_def e_def by auto
  from index_put_frame(1) [OF put] have shr: "shape r = rs" by (simp add: new_zeros_def)
  note dk = scatter_prepare_distinct [OF prep]
  from set_plate_sizes_spec [OF sz oke dk] shr
  have len: "length (shape r) = length rs0"
    and named: "\<forall>(name, indices) \<in> set merged. \<exists>d f.
        map_of m name = Some d \<and> map_of index_plates name = Some f \<and>
        shape r ! axis_of rs0 (d - e) = frame_size f"
    and others: "\<forall>i < length rs0.
        (\<forall>(name, indices) \<in> set merged. \<forall>d.
            map_of m name = Some d \<longrightarrow> axis_of rs0 (d - e) \<noteq> i) \<longrightarrow>
        shape r ! i = rs0 ! i"
    by (simp, fast, simp)
  have zero: "elem r j = 0"
    if "\<exists>(name, indices) \<in> set indexset. \<exists>d.
          map_of m name = Some d \<and> j ! axis_of (shape r) (d - e) \<notin> indices" for j
  proof (rule ccontr)
    assume wr: "elem r j \<noteq> 0"
    from that obtain name indices d where mem: "(name, indices) \<in> set indexset"
      and d: "map_of m name = Some d" and out: "j ! axis_of (shape r) (d - e) \<notin> indices"
      by auto
    from written_requested [OF prep run ok dm e0 e1 wf wp mem d [unfolded m_def] wr] out
    show False by (simp add: e_def)
  qed
  show ?thesis
    unfolding Let_def m_def [symmetric] e_def [symmetric] rs0_def [symmetric]
    using bc len named others zero by blast
qed

lemmas scatter_eval =
  scatter_tensor_def scatter_prepare_def gather_tensor_def indices_of_tensor_def indices_of_shape_def
  default_event_dim_def default_name_to_dim_def py_getitem_def py_setitem_def py_norm_def py_take_def
  index_select_def union_indexset_def IndexSet_def indices_at_def allocate_result_def
  broadcast_shapes_def ones_length_def new_zeros_def arange_index_def reshape_col_def index_put_def
  bc_at_def expandable_def valid_index_def to_list_def Let_def

lemma ex_prepare:
  "scatter_prepare ex_P2 ex_v3 [(''Y'', {1})] None None =
     Inr (ex_v3, [(''Y'', {1}), (''X'', {0..<3})])"
  by (simp add: scatter_eval ex_P2_def ex_v3_def)

lemma ex_fresh:
  "map_sum id to_list (scatter_tensor ex_P2 ex_v3 [(''Y'', {1})] None None None) =
     Inr ([1, 2, 3], [0, 0, 0, 10, 20, 30])"
  by code_simp

lemma ex_given:
  "map_sum id to_list (scatter_tensor ex_P2 ex_v3 [(''Y'', {1})] (Some ex_r6) None None) =
     Inr ([1, 2, 3], [1, 2, 3, 10, 20, 30])"
  by code_simp

lemma ex_dims: "plate_dims_ok (default_name_to_dim ex_P2 None) 0"
  by (simp add: plate_dims_ok_def default_name_to_dim_def ex_P2_def)

theorem scatter_tensor_frame_witness:
  "plate_dims_ok (default_name_to_dim ex_P2 None) (default_event_dim None) \<and>
   scatter_prepare ex_P2 ex_v3 [(''Y'', {1})] None None =
     Inr (ex_v3, [(''Y'', {1}), (''X'', {0..<3})]) \<and>
   map_sum id to_list (scatter_tensor ex_P2 ex_v3 [(''Y'', {1})] (Some ex_r6) None None) =
     Inr ([1, 2, 3], [1, 2, 3, 10, 20, 30]) \<and>
   (case scatter_tensor ex_P2 ex_v3 [(''Y'', {1})] (Some ex_r6) None None of
      Inl err \<Rightarrow> False
    | Inr r' \<Rightarrow> shape r' = shape ex_r6 \<and> elem r' [0, 0, 2] = elem ex_r6 [0, 0, 2])"
proof -
  have ok: "plate_dims_ok (default_name_to_dim ex_P2 None) (default_event_dim None)"
    using ex_dims by (simp add: default_event_dim_def)
  obtain r' where run:
    "scatter_tensor ex_P2 ex_v3 [(''Y'', {1})] (Some ex_r6) None None = Inr r'"
    using ex_given by (cases "scatter_tensor ex_P2 ex_v3 [(''Y'', {1})] (Some ex_r6) None None") auto
  from scatter_tensor_frame [OF ex_prepare run ok]
  have sh: "shape r' = shape ex_r6"
    and fr: "\<And>j. elem r' j \<noteq> elem ex_r6 j \<Longrightarrow>
      (\<forall>(name, indices) \<in> set [(''Y'', {1::nat}), (''X'', {0..<3})]. \<forall>d.
          map_of (default_name_to_dim ex_P2 None) name = Some d \<and>
          1 < shape ex_r6 ! axis_of (shape ex_r6) (d - default_event_dim None) \<longrightarrow>
          j ! axis_of (shape ex_r6) (d - default_event_dim None) \<in> indices)"
    by blast+
  have "elem r' [0, 0, 2] = elem ex_r6 [0, 0, 2]"
  proof (rule ccontr)
    assume "elem r' [0, 0, 2] \<noteq> elem ex_r6 [0, 0, 2]"
    from fr [OF this] show False
      by (simp add: default_name_to_dim_def default_event_dim_def ex_P2_def ex_r6_def axis_of_def)
  qed
  with ok ex_prepare ex_given run sh show ?thesis by simp
qed

theorem scatter_tensor_fresh_witness:
  "plate_dims_ok (default_name_to_dim ex_P2 None) 0 \<and>
   distinct (map fst (default_name_to_dim ex_P2 None)) \<and>
   0 \<le> default_event_dim None \<and> default_event_dim None \<le> int (length (shape ex_v3)) \<and>
   wf_IndexSet [(''Y'', {1})] \<and> within_plates ex_P2 [(''Y'', {1})] \<and>
   scatter_prepare ex_P2 ex_v3 [(''Y'', {1})] None None =
     Inr (ex_v3, [(''Y'', {1}), (''X'', {0..<3})]) \<and>
   map_sum id to_list (scatter_tensor ex_P2 ex_v3 [(''Y'', {1})] None None None) =
     Inr ([1, 2, 3], [0, 0, 0, 10, 20, 30]) \<and>
   (case scatter_tensor ex_P2 ex_v3 [(''Y'', {1})] None None None of
      Inl err \<Rightarrow> False
    | Inr r \<Rightarrow> length (shape r) = 3 \<and> elem r [0, 0, 2] = 0)"
proof -
  have dm: "distinct (map fst (default_name_to_dim ex_P2 None))"
    by (simp add: default_name_to_dim_def ex_P2_def)
  have e0: "0 \<le> default_event_dim None"
    and e1: "default_event_dim None \<le> int (length (shape ex_v3))"
    by (simp_all add: default_event_dim_def ex_v3_def)
  have wf: "wf_IndexSet [(''Y'', {1})]" by (simp add: wf_IndexSet_def)
  have wp: "within_plates ex_P2 [(''Y'', {1})]" by (simp add: within_plates_def ex_P2_def)
  obtain r where run:
    "scatter_tensor ex_P2 ex_v3 [(''Y'', {1})] None None None = Inr r"
    using ex_fresh by (cases "scatter_tensor ex_P2 ex_v3 [(''Y'', {1})] None None None") auto
  from run ex_fresh have shr: "shape r = [1, 2, 3]" by (simp add: to_list_def)
  from scatter_tensor_fresh [OF ex_prepare run ex_dims dm e0 e1 wf wp]
  have len: "length (shape r) =
      length (replicate (ones_length ex_P2 (default_event_dim None) - length (shape ex_v3)) 1 @
        shape ex_v3)"
    and zero: "\<And>j. (\<exists>(name, indices) \<in> set [(''Y'', {1::nat})]. \<exists>d.
          map_of (default_name_to_dim ex_P2 None) name = Some d \<and>
          j ! axis_of (shape r) (d - default_event_dim None) \<notin> indices) \<Longrightarrow> elem r j = 0"
    unfolding Let_def by blast+
  from len have "length (shape r) = 3"
    by (simp add: ones_length_def default_event_dim_def ex_P2_def ex_v3_def)
  moreover have "elem r [0, 0, 2] = 0"
    by (rule zero)
      (simp add: shr default_name_to_dim_def default_event_dim_def ex_P2_def axis_of_def)
  ultimately show ?thesis
    using ex_dims dm e0 e1 wf wp ex_prepare ex_fresh run by simp
qed

subsection \<open>Gathering and scattering full axes\<close>

lemma sorted_list_of_set_upt [simp]: "sorted_list_of_set {0..<n} = [0..<n]"
  by (simp add: sorted_list_of_set_range)

lemma gather_loop_full:
  "plate_dims_ok m e \<Longrightarrow>
   \<forall>(name, S) \<in> set items. \<exists>d. map_of m name = Some d \<and>
      (- (d - e) \<le> int (length (shape v)) \<longrightarrow>
         shape v ! axis_of (shape v) (d - e) = 1 \<or> S = {0..<shape v ! axis_of (shape v) (d - e)}) \<Longrightarrow>
   \<exists>w. gather_loop m e v items = Inr w \<and> shape w = shape v \<and>
       (\<forall>j. valid_index (shape v) j \<longrightarrow> elem w j = elem v j)"
proof (induction items arbitrary: v)
  case Nil
  then show ?case by simp
next
  case (Cons it items)
  obtain name0 S0 where it: "it = (name0, S0)" by (cases it)
  from Cons.prems(2) it obtain d0 where d0: "map_of m name0 = Some d0"
    and full: "- (d0 - e) \<le> int (length (shape v)) \<Longrightarrow>
         shape v ! axis_of (shape v) (d0 - e) = 1 \<or> S0 = {0..<shape v ! axis_of (shape v) (d0 - e)}"
    by auto
  from plate_dims_okD [OF Cons.prems(1) d0] have neg: "d0 - e < 0" .
  let ?a = "axis_of (shape v) (d0 - e)"
  have "\<exists>v2. gather_loop m e v (it # items) = gather_loop m e v2 items \<and> shape v2 = shape v \<and>
      (\<forall>j. valid_index (shape v) j \<longrightarrow> elem v2 j = elem v j)"
  proof (cases "- (d0 - e) \<le> int (length (shape v))")
    case False
    with it d0 show ?thesis by (auto simp: Let_def)
  next
    case True
    with neg have get: "py_getitem (shape v) (d0 - e) = Inr (shape v ! ?a)"
      and a: "?a < length (shape v)"
      by (simp_all add: py_getitem_neg axis_of_def)
    show ?thesis
    proof (cases "shape v ! ?a = 1")
      case one: True
      with it d0 True get show ?thesis by (auto simp: Let_def)
    next
      case False
      with full [OF True] have S0: "S0 = {0..<shape v ! ?a}" by simp
      define v2 where "v2 = \<lparr>shape = (shape v)[?a := length [0..<shape v ! ?a]],
          elem = (\<lambda>j. elem v (j[?a := [0..<shape v ! ?a] ! (j ! ?a)]))\<rparr>"
      have sel: "index_select v (d0 - e) (sorted_list_of_set S0) = Inr v2"
        using neg True by (simp add: index_select_def py_norm_neg S0 v2_def axis_of_def)
      have "elem v2 j = elem v j" if "valid_index (shape v) j" for j
      proof -
        from valid_index_nth [OF that a] have "[0..<shape v ! ?a] ! (j ! ?a) = j ! ?a" by simp
        then show ?thesis by (simp add: v2_def)
      qed
      moreover have "shape v2 = shape v" by (simp add: v2_def)
      moreover have "gather_loop m e v (it # items) = gather_loop m e v2 items"
        using it d0 True get False sel by (simp add: Let_def)
      ultimately show ?thesis by blast
    qed
  qed
  then obtain v2 where step: "gather_loop m e v (it # items) = gather_loop m e v2 items"
    and sh: "shape v2 = shape v"
    and el: "\<And>j. valid_index (shape v) j \<Longrightarrow> elem v2 j = elem v j"
    by blast
  from Cons.prems(2) have "\<forall>(name, S) \<in> set items. \<exists>d. map_of m name = Some d \<and>
      (- (d - e) \<le> int (length (shape v2)) \<longrightarrow>
         shape v2 ! axis_of (shape v2) (d - e) = 1 \<or>
         S = {0..<shape v2 ! axis_of (shape v2) (d - e)})"
    unfolding sh by simp
  from Cons.IH [OF Cons.prems(1) this] obtain w where
    "gather_loop m e v2 items = Inr w" "shape w = shape v2"
    "\<forall>j. valid_index (shape v2) j \<longrightarrow> elem w j = elem v2 j"
    by blast
  with step sh el show ?case by auto
qed

lemma override_index_identity:
  "plate_dims_ok m e \<Longrightarrow>
   \<forall>(name, S) \<in> set items. \<exists>d. map_of m name = Some d \<and> - (d - e) \<le> int (length rs) \<and>
      (1 < rs ! axis_of rs (d - e) \<longrightarrow> S = {0..<rs ! axis_of rs (d - e)}) \<Longrightarrow>
   override_index m e rs items (arange_index rs) = Inr (arange_index rs)"
proof (induction items)
  case Nil
  show ?case by simp
next
  case (Cons it items)
  obtain name0 S0 where it: "it = (name0, S0)" by (cases it)
  from Cons.prems(2) it obtain d0 where d0: "map_of m name0 = Some d0"
    and rng: "- (d0 - e) \<le> int (length rs)"
    and full: "1 < rs ! axis_of rs (d0 - e) \<Longrightarrow> S0 = {0..<rs ! axis_of rs (d0 - e)}"
    by auto
  from plate_dims_okD [OF Cons.prems(1) d0] have neg: "d0 - e < 0" .
  let ?a = "axis_of rs (d0 - e)"
  from neg rng have get: "py_getitem rs (d0 - e) = Inr (rs ! ?a)"
    and a: "?a < length rs" and inta: "int ?a = int (length rs) + (d0 - e)"
    by (simp_all add: py_getitem_neg axis_of_def)
  from Cons have IH: "override_index m e rs items (arange_index rs) = Inr (arange_index rs)"
    by simp
  show ?case
  proof (cases "1 < rs ! ?a")
    case False
    with it d0 get IH show ?thesis by simp
  next
    case True
    have k: "e - d0 - 1 = int (length rs) - 1 - int ?a" using inta by simp
    have "reshape_col (sorted_list_of_set S0) (e - d0 - 1) = arange_index rs ! ?a"
      using full [OF True] a by (simp add: nth_arange_index k)
    then have "(arange_index rs)[?a := reshape_col (sorted_list_of_set S0) (e - d0 - 1)] =
        arange_index rs"
      by simp
    moreover have "py_setitem (arange_index rs) (d0 - e) x = Inr ((arange_index rs)[?a := x])" for x
      using neg rng by (simp add: py_setitem_def py_norm_neg axis_of_def)
    ultimately show ?thesis using it d0 get True IH by simp
  qed
qed

lemma set_plate_sizes_succeeds:
  "plate_dims_ok m e \<Longrightarrow>
   \<forall>(name, S) \<in> set items. \<exists>d f. map_of m name = Some d \<and> map_of P name = Some f \<and>
      - (d - e) \<le> int (length rs0) \<Longrightarrow>
   \<exists>rs. set_plate_sizes P m e items rs0 = Inr rs"
proof (induction items arbitrary: rs0)
  case Nil
  show ?case by simp
next
  case (Cons it items)
  obtain name0 S0 where it: "it = (name0, S0)" by (cases it)
  from Cons.prems(2) it obtain d0 f0 where d0: "map_of m name0 = Some d0"
    and f0: "map_of P name0 = Some f0" and rng: "- (d0 - e) \<le> int (length rs0)"
    by auto
  from plate_dims_okD [OF Cons.prems(1) d0] have neg: "d0 - e < 0" .
  let ?rs1 = "rs0[axis_of rs0 (d0 - e) := frame_size f0]"
  have set1: "py_setitem rs0 (d0 - e) (frame_size f0) = Inr ?rs1"
    using neg rng by (rule py_setitem_neg)
  from Cons.prems(2) have "\<forall>(name, S) \<in> set items. \<exists>d f. map_of m name = Some d \<and>
      map_of P name = Some f \<and> - (d - e) \<le> int (length ?rs1)"
    by simp
  from Cons.IH [OF Cons.prems(1) this] it d0 f0 set1 show ?case by simp
qed

lemma broadcast_rev_expandable_left:
  "length ys \<le> length xs \<Longrightarrow> \<forall>i < length ys. ys ! i = xs ! i \<or> ys ! i = 1 \<Longrightarrow>
     broadcast_rev xs ys = Inr xs"
proof (induction xs ys rule: broadcast_rev.induct)
  case (1 ys)
  then show ?case by simp
next
  case (2 x xs)
  then show ?case by simp
next
  case (3 x xs y ys)
  from "3.prems" have "y = x \<or> y = 1" by auto
  moreover from "3.prems" have "broadcast_rev xs ys = Inr xs"
    by (intro "3.IH") auto
  ultimately show ?case by auto
qed

lemma broadcast_shapes_expandable_left:
  assumes "expandable s b"
  shows "broadcast_shapes b s = Inr b"
proof -
  from assms have len: "length s \<le> length b"
    and nth: "\<And>i. i < length s \<Longrightarrow> s ! i = b ! (i + (length b - length s)) \<or> s ! i = 1"
    by (auto simp: expandable_iff)
  have "rev s ! k = rev b ! k \<or> rev s ! k = 1" if k: "k < length s" for k
  proof -
    from k len have "length s - Suc k + (length b - length s) = length b - Suc k" by simp
    with nth [of "length s - Suc k"] k len show ?thesis by (simp add: rev_nth)
  qed
  with len have "broadcast_rev (rev b) (rev s) = Inr (rev b)"
    by (intro broadcast_rev_expandable_left) simp_all
  then show ?thesis by (simp add: broadcast_shapes_def)
qed

lemma expandable_drop: "expandable s b \<Longrightarrow> expandable (drop k s) b"
proof (cases "k \<le> length s")
  case True
  assume "expandable s b"
  with True show ?thesis
    by (auto simp: expandable_iff) (metis add.assoc add.commute le_add_diff_inverse less_diff_conv)
next
  case False
  then show ?thesis by (simp add: expandable_iff)
qed

lemma bc_at_ones_append:
  assumes "k + length vs \<le> length p"
  shows "bc_at (replicate k 1 @ vs) p = replicate k 0 @ bc_at vs p"
proof (rule nth_equalityI)
  from assms show len: "length (bc_at (replicate k 1 @ vs) p) = length (replicate k 0 @ bc_at vs p)"
    by (simp add: length_bc_at)
  fix i assume "i < length (bc_at (replicate k 1 @ vs) p)"
  with assms have i: "i < k + length vs" by (simp add: length_bc_at)
  with assms have nth: "bc_at (replicate k 1 @ vs) p ! i =
      (if (replicate k 1 @ vs) ! i = 1 then 0
       else p ! (i + (length p - length (replicate k 1 @ vs))))"
    by (intro nth_bc_at) simp_all
  show "bc_at (replicate k 1 @ vs) p ! i = (replicate k 0 @ bc_at vs p) ! i"
  proof (cases "i < k")
    case True
    with nth show ?thesis by (simp add: nth_append)
  next
    case False
    with i have ik: "i - k < length vs" by simp
    with assms have "bc_at vs p ! (i - k) =
        (if vs ! (i - k) = 1 then 0 else p ! (i - k + (length p - length vs)))"
      by (intro nth_bc_at) simp_all
    moreover from False assms have "i + (length p - (k + length vs)) = i - k + (length p - length vs)"
      by simp
    ultimately show ?thesis using nth False by (simp add: nth_append)
  qed
qed

lemma bc_at_leading_ones:
  assumes "length (s :: nat list) \<le> length p"
  shows "replicate (length s - length (dropWhile (\<lambda>n. n = 1) s)) 0 @
         bc_at (dropWhile (\<lambda>n. n = 1) s) p = bc_at s p"
proof -
  let ?k = "length (takeWhile (\<lambda>n. n = 1) s)"
  let ?vs = "dropWhile (\<lambda>n. n = 1) s"
  have "takeWhile (\<lambda>n. n = 1) s = replicate ?k 1"
    by (intro replicate_length_same [symmetric]) (auto dest: set_takeWhileD)
  then have split: "s = replicate ?k 1 @ ?vs"
    by (metis takeWhile_dropWhile_id)
  then have len: "length s = ?k + length ?vs"
    by (metis length_append length_replicate)
  then have lead: "length s - length ?vs = ?k" by simp
  from assms len have "bc_at (replicate ?k 1 @ ?vs) p = replicate ?k 0 @ bc_at ?vs p"
    by (intro bc_at_ones_append) simp
  with split lead show ?thesis by metis
qed

lemma nat_col [simp]: "i < n \<Longrightarrow> nat (int n - 1 - int i) = n - Suc i"
  by simp

lemma target_arange:
  assumes "valid_index rs p"
  shows "map (\<lambda>ix. elem ix (bc_at (shape ix) p)) (arange_index rs) = p"
proof (rule nth_equalityI)
  from assms have len: "length p = length rs" by (rule valid_index_length)
  then show "length (map (\<lambda>ix. elem ix (bc_at (shape ix) p)) (arange_index rs)) = length p"
    by simp
  fix i assume "i < length (map (\<lambda>ix. elem ix (bc_at (shape ix) p)) (arange_index rs))"
  then have i: "i < length rs" by simp
  let ?s = "rs ! i # replicate (length rs - Suc i) 1"
  from i have ls: "length ?s = length rs - i" by simp
  from valid_index_nth [OF assms i] have pi: "p ! i < rs ! i" .
  have "bc_at ?s p ! 0 = (if ?s ! 0 = 1 then 0 else p ! (0 + (length p - length ?s)))"
    using i len by (intro nth_bc_at) simp_all
  also from i len ls have "0 + (length p - length ?s) = i" by simp
  finally have "bc_at ?s p ! 0 = p ! i" using pi by auto
  with pi i show "map (\<lambda>ix. elem ix (bc_at (shape ix) p)) (arange_index rs) ! i = p ! i"
    by (simp add: nth_arange_index)
qed

lemma broadcast_all_arange: "broadcast_all (map shape (arange_index rs)) = Inr rs"
  by (rule broadcast_all_cols [where n = "length rs"]) (simp_all add: nth_arange_index)

lemma find_target:
  assumes "\<forall>p \<in> set ps. t p = p"
  shows "find (\<lambda>p. t p = j) ps = (if j \<in> set ps then Some j else None)"
  using assms by (induction ps) auto

lemma index_put_arange:
  assumes ex: "expandable (shape v) rs"
  shows "\<exists>r. index_put (new_zeros rs) (arange_index rs) v = Inr r \<and> shape r = rs \<and>
     (\<forall>j. valid_index rs j \<longrightarrow> elem r j = elem v (bc_at (shape v) j))"
proof -
  let ?vs = "dropWhile (\<lambda>n. n = 1) (shape v)"
  let ?lead = "length (shape v) - length ?vs"
  let ?target = "\<lambda>p. map (\<lambda>ix. elem ix (bc_at (shape ix) p)) (arange_index rs)"
  let ?r = "\<lparr>shape = rs,
      elem = (\<lambda>j. case find (\<lambda>p. ?target p = j) (rev (all_indices rs)) of
                     None \<Rightarrow> elem (new_zeros rs) j
                   | Some p \<Rightarrow> elem v (replicate ?lead 0 @ bc_at ?vs p))\<rparr>"
  have exv: "expandable ?vs rs"
    using expandable_drop [OF ex] by (simp add: dropWhile_eq_drop)
  have tgt: "\<forall>p \<in> set (all_indices rs). ?target p = p"
    by (simp add: set_all_indices target_arange)
  then have valid: "\<not> (\<exists>p \<in> set (all_indices rs). \<not> valid_index rs (?target p))"
    by (simp add: set_all_indices)
  have put: "index_put (new_zeros rs) (arange_index rs) v = Inr ?r"
    unfolding index_put_def Let_def using exv valid
    by (simp add: broadcast_all_arange del: One_nat_def) (simp add: new_zeros_def)
  have "elem ?r j = elem v (bc_at (shape v) j)" if j: "valid_index rs j" for j
  proof -
    from tgt have "\<forall>p \<in> set (rev (all_indices rs)). ?target p = p" by simp
    from find_target [OF this, of j] j
    have "find (\<lambda>p. ?target p = j) (rev (all_indices rs)) = Some j"
      by (simp add: set_all_indices)
    moreover from ex j have "length (shape v) \<le> length j"
      by (simp add: expandable_iff valid_index_length)
    ultimately show ?thesis by (simp add: bc_at_leading_ones del: One_nat_def)
  qed
  with put show ?thesis by auto
qed

lemma map_of_snapshot:
  "map_of (default_name_to_dim P None) name = map_option frame_dim (map_of P name)"
  by (simp add: default_name_to_dim_def map_of_map)

lemma coversD:
  assumes "covers P ix" "(name, S) \<in> set ix"
  shows "\<exists>f. map_of P name = Some f \<and> 0 < frame_size f \<and> S = {0..<frame_size f}"
proof -
  from assms have "case map_of P name of None \<Rightarrow> False
      | Some f \<Rightarrow> 0 < frame_size f \<and> S = {0..<frame_size f}"
    unfolding covers_def list_all_iff by fast
  then show ?thesis by (cases "map_of P name") simp_all
qed

lemma fitsD:
  assumes "fits P e v" "map_of P name = Some f" "- (frame_dim f - e) \<le> int (length (shape v))"
  shows "shape v ! axis_of (shape v) (frame_dim f - e) = 1 \<or>
         shape v ! axis_of (shape v) (frame_dim f - e) = frame_size f"
proof -
  from assms(2) have "(name, f) \<in> set P" by (rule map_of_SomeD)
  with assms(1) have "- (frame_dim f - e) \<le> int (length (shape v)) \<longrightarrow>
        shape v ! axis_of (shape v) (frame_dim f - e) = 1 \<or>
        shape v ! axis_of (shape v) (frame_dim f - e) = frame_size f"
    unfolding fits_def list_all_iff by fast
  with assms(3) show ?thesis by simp
qed

lemma ones_length_ge:
  assumes "map_of P name = Some f"
  shows "e - frame_dim f \<le> int (ones_length P e)"
proof -
  from assms have "(name, f) \<in> set P" by (rule map_of_SomeD)
  then have "e - frame_dim f \<in> set (map (\<lambda>(name, f). e - frame_dim f) P @ [0])"
    by force
  then have "e - frame_dim f \<le> Max (set (map (\<lambda>(name, f). e - frame_dim f) P @ [0]))"
    by (intro Max_ge) simp_all
  then show ?thesis by (simp add: ones_length_def)
qed

lemma prepare_full:
  assumes dP: "distinct (map fst P)"
    and ok: "plate_dims_ok (default_name_to_dim P None) 0"
    and ntd: "default_name_to_dim P name_to_dim = default_name_to_dim P None"
    and e0: "0 \<le> default_event_dim event_dim"
    and e1: "default_event_dim event_dim \<le> int (length (shape v))"
    and cov: "covers P ix"
    and fit: "fits P (default_event_dim event_dim) v"
  shows "\<exists>w merged. scatter_prepare P v ix event_dim name_to_dim = Inr (w, merged) \<and>
     gather_loop (default_name_to_dim P None) (default_event_dim event_dim) v ix = Inr w \<and>
     shape w = shape v \<and> (\<forall>j. valid_index (shape v) j \<longrightarrow> elem w j = elem v j) \<and>
     distinct (map fst merged) \<and>
     (\<forall>(name, S) \<in> set ix. S \<noteq> {} \<and> (name, S) \<in> set merged) \<and>
     (\<forall>(name, S) \<in> set merged. \<exists>f. map_of P name = Some f \<and> S = {0..<frame_size f})"
proof -
  define m where "m = default_name_to_dim P None"
  define e where "e = default_event_dim event_dim"
  note oke = plate_dims_ok_mono [OF ok e0, folded m_def e_def]
  have dm: "distinct (map fst m)"
    using dP by (simp add: m_def default_name_to_dim_def comp_def case_prod_unfold)
  have mo: "map_of m name = map_option frame_dim (map_of P name)" for name
    by (simp add: m_def map_of_snapshot)
  from cov have dix: "distinct (map fst ix)" by (simp add: covers_def)
  have "\<forall>(name, S) \<in> set ix. \<exists>d. map_of m name = Some d \<and>
      (- (d - e) \<le> int (length (shape v)) \<longrightarrow>
         shape v ! axis_of (shape v) (d - e) = 1 \<or> S = {0..<shape v ! axis_of (shape v) (d - e)})"
  proof (clarify)
    fix name S assume "(name, S) \<in> set ix"
    from coversD [OF cov this] obtain f where f: "map_of P name = Some f"
      and S: "S = {0..<frame_size f}" by blast
    from fitsD [OF fit f] S f
    show "\<exists>d. map_of m name = Some d \<and>
      (- (d - e) \<le> int (length (shape v)) \<longrightarrow>
         shape v ! axis_of (shape v) (d - e) = 1 \<or> S = {0..<shape v ! axis_of (shape v) (d - e)})"
      by (auto simp: mo e_def)
  qed
  from gather_loop_full [OF oke this] obtain w where
    gath: "gather_loop m e v ix = Inr w" and shw: "shape w = shape v"
    and elw: "\<forall>j. valid_index (shape v) j \<longrightarrow> elem w j = elem v j"
    by blast
  have e1w: "e \<le> int (length (shape w))" using e1 shw by (simp add: e_def)
  from indices_of_tensor_spec [OF ok [folded m_def] dm e0 [folded e_def] e1w, of P]
  obtain ix2 where iof: "indices_of_tensor P w (Some e) (Some m) = Inr ix2"
    and at2raw: "\<forall>name. indices_at ix2 name =
        (case map_of m name of
           None \<Rightarrow> {}
         | Some d \<Rightarrow>
             if - (d - e) \<le> int (length (shape w)) \<and> 1 < shape w ! axis_of (shape w) (d - e)
             then {0..<shape w ! axis_of (shape w) (d - e)} else {})"
    by blast
  note at2 = at2raw [unfolded shw, rule_format]
  define merged where "merged = union_indexset ix ix2"
  have prep: "scatter_prepare P v ix event_dim name_to_dim = Inr (w, merged)"
  proof -
    have g: "gather_tensor P v ix (Some e) (Some m) = Inr w"
      using gath by (simp add: gather_tensor_def default_event_dim_def default_name_to_dim_def)
    have mm: "default_name_to_dim P name_to_dim = m" by (simp add: ntd m_def)
    show ?thesis
      unfolding scatter_prepare_def Let_def mm e_def [symmetric]
      using g iof by (simp add: merged_def)
  qed
  have at2': "indices_at ix2 name = {} \<or>
      (\<exists>f. map_of P name = Some f \<and> indices_at ix2 name = {0..<frame_size f})" for name
  proof (cases "map_of P name")
    case None
    then show ?thesis by (simp add: at2 mo)
  next
    case (Some f)
    show ?thesis
    proof (cases "- (frame_dim f - e) \<le> int (length (shape v)) \<and>
        1 < shape v ! axis_of (shape v) (frame_dim f - e)")
      case True
      with fitsD [OF fit Some] have "shape v ! axis_of (shape v) (frame_dim f - e) = frame_size f"
        by (auto simp: e_def)
      with True Some show ?thesis by (simp add: at2 mo)
    next
      case False
      with Some show ?thesis by (auto simp: at2 mo)
    qed
  qed
  have at1: "indices_at ix name = {} \<or>
      (\<exists>f. map_of P name = Some f \<and> indices_at ix name = {0..<frame_size f})" for name
  proof (cases "name \<in> fst ` set ix")
    case False
    then show ?thesis by (simp add: indices_at_notin)
  next
    case True
    then obtain S where mem: "(name, S) \<in> set ix" by auto
    from coversD [OF cov mem] indices_at_mem [OF dix mem] show ?thesis by auto
  qed
  have full: "\<exists>f. map_of P name = Some f \<and> S = {0..<frame_size f}"
    if "(name, S) \<in> set merged" for name S
  proof -
    from that [unfolded merged_def union_indexset_mem]
    have S: "S = indices_at ix name \<union> indices_at ix2 name" and ne: "S \<noteq> {}"
      by blast+
    from at1 [of name] at2' [of name] S ne show ?thesis by auto
  qed
  have req: "S \<noteq> {} \<and> (name, S) \<in> set merged" if mem: "(name, S) \<in> set ix" for name S
  proof -
    from coversD [OF cov mem] obtain f where f: "map_of P name = Some f"
      and pos: "0 < frame_size f" and S: "S = {0..<frame_size f}" by blast
    from pos S have ne: "S \<noteq> {}" by simp
    from at2' [of name] f have "indices_at ix2 name \<subseteq> S" by (auto simp: S)
    with indices_at_mem [OF dix mem] have "indices_at ix name \<union> indices_at ix2 name = S"
      by auto
    with mem ne show ?thesis
      by (force simp: merged_def union_indexset_mem)
  qed
  have "distinct (map fst merged)" by (simp add: merged_def distinct_union_indexset)
  with prep gath shw elw full req show ?thesis
    unfolding m_def e_def by blast
qed

lemma elementwise_eq_broadcast:
  assumes ex: "expandable (shape v) (shape g)"
    and el: "\<And>p. valid_index (shape g) p \<Longrightarrow> elem g p = elem v (bc_at (shape v) p)"
  shows "elementwise_eq g v = Inr True"
proof -
  from broadcast_shapes_expandable_left [OF ex]
  have bs: "broadcast_shapes (shape g) (shape v) = Inr (shape g)" .
  have "elem g (bc_at (shape g) p) = elem v (bc_at (shape v) p)"
    if "p \<in> set (all_indices (shape g))" for p
  proof -
    from that have p: "valid_index (shape g) p" by (simp add: set_all_indices)
    with el [OF p] show ?thesis by (simp add: bc_at_self)
  qed
  with bs show ?thesis by (simp add: elementwise_eq_def)
qed

text \<open>
  C1, as the code has it: let the registry be a dictionary of plates with distinct negative
  dimensions, name\_to\_dim its snapshot, event\_dim between 0 and the number of axes of
  \<open>v\<close>, every name of \<open>I\<close> a registered plate whose whole range \<open>{0, ..., size - 1}\<close>
  is requested, and \<open>v\<close> a tensor whose length along every registered plate axis it has is
  1 or the plate's size. Then scatter of \<open>v\<close> into a fresh accumulator followed by gather,
  both with \<open>I\<close>, returns a tensor that is element-wise equal to \<open>v\<close> (\<open>v\<close> being
  broadcast to the shape of the result).
\<close>

theorem gather_scatter_inverse:
  assumes dP: "distinct (map fst index_plates)"
    and ok: "plate_dims_ok (default_name_to_dim index_plates None) 0"
    and ntd: "default_name_to_dim index_plates name_to_dim = default_name_to_dim index_plates None"
    and e0: "0 \<le> default_event_dim event_dim"
    and e1: "default_event_dim event_dim \<le> int (length (shape v))"
    and cov: "covers index_plates indexset"
    and fit: "fits index_plates (default_event_dim event_dim) v"
  shows "\<exists>g. gather_after_scatter index_plates v indexset event_dim name_to_dim = Inr g \<and>
             elementwise_eq g v = Inr True"
proof -
  define m where "m = default_name_to_dim index_plates None"
  define e where "e = default_event_dim event_dim"
  note oke = plate_dims_ok_mono [OF ok e0, folded m_def e_def]
  have mm: "default_name_to_dim index_plates name_to_dim = m" by (simp add: ntd m_def)
  have mo: "map_of m name = map_option frame_dim (map_of index_plates name)" for name
    by (simp add: m_def map_of_snapshot)
  from prepare_full [OF dP ok ntd e0 e1 cov fit] obtain w merged where conj:
    "scatter_prepare index_plates v indexset event_dim name_to_dim = Inr (w, merged) \<and>
     gather_loop (default_name_to_dim index_plates None) (default_event_dim event_dim) v indexset =
       Inr w \<and>
     shape w = shape v \<and> (\<forall>j. valid_index (shape v) j \<longrightarrow> elem w j = elem v j) \<and>
     distinct (map fst merged) \<and>
     (\<forall>(name, S) \<in> set indexset. S \<noteq> {} \<and> (name, S) \<in> set merged) \<and>
     (\<forall>(name, S) \<in> set merged. \<exists>f. map_of index_plates name = Some f \<and> S = {0..<frame_size f})"
    by (elim exE)
  note prep = conj [THEN conjunct1]
  note shw = conj [THEN conjunct2, THEN conjunct2, THEN conjunct1]
  note dk = conj [THEN conjunct2, THEN conjunct2, THEN conjunct2, THEN conjunct2, THEN conjunct1]
  have elw: "elem w j = elem v j" if "valid_index (shape v) j" for j
    using conj [THEN conjunct2, THEN conjunct2, THEN conjunct2, THEN conjunct1] that by simp
  have req: "(name, S) \<in> set merged" if "(name, S) \<in> set indexset" for name S
    using conj [THEN conjunct2, THEN conjunct2, THEN conjunct2, THEN conjunct2, THEN conjunct2,
        THEN conjunct1] that by fast
  have full: "\<exists>f. map_of index_plates name = Some f \<and> S = {0..<frame_size f}"
    if "(name, S) \<in> set merged" for name S
    using conj [THEN conjunct2, THEN conjunct2, THEN conjunct2, THEN conjunct2, THEN conjunct2,
        THEN conjunct2] that by fast
  define rs0 where "rs0 = replicate (ones_length index_plates e - length (shape w)) 1 @ shape w"
  have bc: "broadcast_shapes (shape w) (replicate (ones_length index_plates e) 1) = Inr rs0"
    unfolding rs0_def by (rule broadcast_shapes_ones)
  have len0: "int (length rs0) = max (int (ones_length index_plates e)) (int (length (shape v)))"
    by (auto simp: rs0_def shw)
  have inr: "\<exists>d f. map_of m name = Some d \<and> map_of index_plates name = Some f \<and> d = frame_dim f \<and>
      S = {0..<frame_size f} \<and> - (d - e) \<le> int (length rs0)"
    if "(name, S) \<in> set merged" for name S
  proof -
    from full [OF that] obtain f where f: "map_of index_plates name = Some f" and S: "S = {0..<frame_size f}"
      by blast
    from ones_length_ge [OF f, of e] len0 have "- (frame_dim f - e) \<le> int (length rs0)" by simp
    with f S show ?thesis by (simp add: mo)
  qed
  then have "\<forall>(name, S) \<in> set merged. \<exists>d f. map_of m name = Some d \<and> map_of index_plates name = Some f \<and>
      - (d - e) \<le> int (length rs0)"
    by blast
  from set_plate_sizes_succeeds [OF oke this] obtain rs where
    sz: "set_plate_sizes index_plates m e merged rs0 = Inr rs" ..
  from set_plate_sizes_spec [OF sz oke dk]
  have len: "length rs = length rs0"
    and named: "\<And>name S. (name, S) \<in> set merged \<Longrightarrow>
      \<exists>d f. map_of m name = Some d \<and> map_of index_plates name = Some f \<and>
             - (d - e) \<le> int (length rs0) \<and> rs ! axis_of rs0 (d - e) = frame_size f"
    and others: "\<And>i. i < length rs0 \<Longrightarrow>
      (\<forall>(name, S) \<in> set merged. \<forall>d. map_of m name = Some d \<longrightarrow> axis_of rs0 (d - e) \<noteq> i) \<Longrightarrow>
      rs ! i = rs0 ! i"
    by blast+
  have ax: "axis_of rs0 i = axis_of rs i" for i using len by (simp add: axis_of_def)
  have mrg: "\<exists>d. map_of m name = Some d \<and> - (d - e) \<le> int (length rs) \<and>
      S = {0..<rs ! axis_of rs (d - e)}"
    if "(name, S) \<in> set merged" for name S
    using inr [OF that] named [OF that] len by (auto simp: ax)
  then have "\<forall>(name, S) \<in> set merged. \<exists>d. map_of m name = Some d \<and>
      - (d - e) \<le> int (length rs) \<and>
      (1 < rs ! axis_of rs (d - e) \<longrightarrow> S = {0..<rs ! axis_of rs (d - e)})"
    by blast
  from override_index_identity [OF oke this]
  have ov: "override_index m e rs merged (arange_index rs) = Inr (arange_index rs)" .
  have lenv: "length (shape v) \<le> length rs" using len by (simp add: rs0_def shw)
  have exv: "expandable (shape v) rs"
    unfolding expandable_iff
  proof (intro conjI allI impI)
    show "length (shape v) \<le> length rs" by (rule lenv)
    fix i assume i: "i < length (shape v)"
    let ?a = "i + (length rs - length (shape v))"
    from i lenv have a: "?a < length rs0" using len by simp
    show "shape v ! i = rs ! ?a \<or> shape v ! i = 1"
    proof (cases "\<forall>(name, S) \<in> set merged. \<forall>d. map_of m name = Some d \<longrightarrow>
        axis_of rs0 (d - e) \<noteq> ?a")
      case True
      from others [OF a True] have "rs ! ?a = rs0 ! ?a" .
      also have "\<dots> = shape v ! i"
        using i lenv len by (simp add: rs0_def shw nth_append)
      finally show ?thesis by simp
    next
      case False
      then obtain name S d where mem: "(name, S) \<in> set merged" and d: "map_of m name = Some d"
        and eq: "axis_of rs0 (d - e) = ?a" by auto
      from inr [OF mem] d obtain f where f: "map_of index_plates name = Some f" and df: "d = frame_dim f"
        and rng: "- (d - e) \<le> int (length rs0)" by auto
      from named [OF mem] d f have size: "rs ! axis_of rs0 (d - e) = frame_size f" by auto
      from plate_dims_okD [OF oke d] have neg: "d - e < 0" .
      from eq rng neg len have "int ?a = int (length rs) + (d - e)" by (simp add: axis_of_def)
      with i lenv have iv: "int i = int (length (shape v)) + (d - e)" by linarith
      then have rngv: "- (frame_dim f - e) \<le> int (length (shape v))"
        and axv: "axis_of (shape v) (frame_dim f - e) = i"
        using df by (simp_all add: axis_of_def)
      from fitsD [OF fit [folded e_def] f rngv] axv size eq show ?thesis by auto
    qed
  qed
  from index_put_arange [of w rs] exv shw obtain r where
    put: "index_put (new_zeros rs) (arange_index rs) w = Inr r" and shr: "shape r = rs"
    and elr: "\<And>j. valid_index rs j \<Longrightarrow> elem r j = elem w (bc_at (shape v) j)"
    by auto
  have scat: "scatter_tensor index_plates v indexset None event_dim name_to_dim = Inr r"
    unfolding scatter_tensor_def Let_def mm e_def [symmetric] allocate_result_def
    using prep bc sz ov put by (simp add: new_zeros_def)
  have "\<forall>(name, S) \<in> set indexset. \<exists>d. map_of m name = Some d \<and>
      (- (d - e) \<le> int (length (shape r)) \<longrightarrow>
         shape r ! axis_of (shape r) (d - e) = 1 \<or>
         S = {0..<shape r ! axis_of (shape r) (d - e)})"
    using mrg req unfolding shr by blast
  from gather_loop_full [OF oke this] obtain g where
    gath: "gather_loop m e r indexset = Inr g" and shg: "shape g = rs"
    and elg: "\<And>j. valid_index rs j \<Longrightarrow> elem g j = elem r j"
    unfolding shr by blast
  have gt: "gather_tensor index_plates r indexset event_dim name_to_dim = Inr g"
    using gath by (simp add: gather_tensor_def mm e_def)
  have "elem g p = elem v (bc_at (shape v) p)" if p: "valid_index (shape g) p" for p
  proof -
    from p shg have p': "valid_index rs p" by simp
    from valid_index_bc_at [OF exv p'] have "elem w (bc_at (shape v) p) = elem v (bc_at (shape v) p)"
      by (rule elw)
    with elg [OF p'] elr [OF p'] show ?thesis by simp
  qed
  with exv shg have "elementwise_eq g v = Inr True"
    by (intro elementwise_eq_broadcast) simp_all
  with scat gt show ?thesis
    by (simp add: gather_after_scatter_def)
qed

text \<open>
  The claim C1 as stated, for every tensor, fails. With the plate X of size 3 fully
  requested, a tensor with only two positions along X makes the gather inside scatter
  raise IndexError; a tensor with four positions comes back with three, which cannot be
  compared element-wise with the four.
\<close>

theorem gather_scatter_inverse_counterexample:
  "covers ex_P1 [(''X'', {0..<3})] \<and>
   map_sum id to_list (gather_after_scatter ex_P1 ex_v2 [(''X'', {0..<3})] None None) =
     Inl IndexError \<and>
   map_sum id to_list (gather_after_scatter ex_P1 ex_v4 [(''X'', {0..<3})] None None) =
     Inr ([3], [10, 20, 30]) \<and>
   to_list ex_v4 = ([4], [10, 20, 30, 40]) \<and>
   (case gather_after_scatter ex_P1 ex_v4 [(''X'', {0..<3})] None None of
      Inl err \<Rightarrow> Inl err
    | Inr g \<Rightarrow> elementwise_eq g ex_v4) = Inl RuntimeError"
proof -
  have "covers ex_P1 [(''X'', {0..<3})]"
    by (simp add: covers_def ex_P1_def)
  moreover have "map_sum id to_list
      (gather_after_scatter ex_P1 ex_v2 [(''X'', {0..<3})] None None) = Inl IndexError"
    by code_simp
  moreover have "map_sum id to_list (gather_after_scatter ex_P1 ex_v4 [(''X'', {0..<3})] None None) =
     Inr ([3], [10, 20, 30])"
    by code_simp
  moreover have "to_list ex_v4 = ([4], [10, 20, 30, 40])"
    by code_simp
  moreover have "(case gather_after_scatter ex_P1 ex_v4 [(''X'', {0..<3})] None None of
      Inl err \<Rightarrow> Inl err
    | Inr g \<Rightarrow> elementwise_eq g ex_v4) = Inl RuntimeError"
    by code_simp
  ultimately show ?thesis by blast
qed

lemma ex_roundtrip:
  "map_sum id to_list (gather_after_scatter ex_P2 ex_v3 [(''X'', {0..<3})] None None) =
     Inr ([1, 1, 3], [10, 20, 30])"
  by code_simp

theorem gather_scatter_inverse_witness:
  "distinct (map fst ex_P2) \<and> plate_dims_ok (default_name_to_dim ex_P2 None) 0 \<and>
   0 \<le> default_event_dim None \<and> default_event_dim None \<le> int (length (shape ex_v3)) \<and>
   covers ex_P2 [(''X'', {0..<3})] \<and> fits ex_P2 (default_event_dim None) ex_v3 \<and>
   map_sum id to_list (gather_after_scatter ex_P2 ex_v3 [(''X'', {0..<3})] None None) =
     Inr ([1, 1, 3], [10, 20, 30]) \<and>
   (case gather_after_scatter ex_P2 ex_v3 [(''X'', {0..<3})] None None of
      Inl err \<Rightarrow> False
    | Inr g \<Rightarrow> elementwise_eq g ex_v3 = Inr True)"
proof -
  have dP: "distinct (map fst ex_P2)" by (simp add: ex_P2_def)
  have e0: "0 \<le> default_event_dim None"
    and e1: "default_event_dim None \<le> int (length (shape ex_v3))"
    by (simp_all add: default_event_dim_def ex_v3_def)
  have cov: "covers ex_P2 [(''X'', {0..<3})]" by (simp add: covers_def ex_P2_def)
  have fit: "fits ex_P2 (default_event_dim None) ex_v3"
    by (simp add: fits_def ex_P2_def ex_v3_def default_event_dim_def axis_of_def)
  from gather_scatter_inverse [OF dP ex_dims refl e0 e1 cov fit]
  obtain g where "gather_after_scatter ex_P2 ex_v3 [(''X'', {0..<3})] None None = Inr g"
    and "elementwise_eq g ex_v3 = Inr True" by blast
  then have "(case gather_after_scatter ex_P2 ex_v3 [(''X'', {0..<3})] None None of
      Inl err \<Rightarrow> False
    | Inr g \<Rightarrow> elementwise_eq g ex_v3 = Inr True)" by simp
  with dP ex_dims e0 e1 cov fit ex_roundtrip show ?thesis by blast
qed

section \<open>Properties of scatter over a partition\<close>

text \<open>
  C5: when the dictionary of partitions is empty or one of its keys is not an IndexSet,
  scatter fails with an AssertionError and nothing has changed: the registry, the record of
  add\_indices calls (none was made) and the accumulator are those of the call's entry.
\<close>

theorem scatter_dict_precondition:
  assumes "partitioned_values = [] \<or> (\<exists>(k, v) \<in> set partitioned_values. \<not> isinstance_IndexSet k)"
  shows "scatter_dict add_indices_handler w partitioned_values event_dim name_to_dim =
           (Inl AssertionError, w)"
  using assms by (auto simp: scatter_dict_def list_all_iff)

theorem scatter_dict_precondition_witness:
  "scatter_dict (\<lambda>u P. P) \<lparr>registry = [], add_indices_calls = [], accumulator = None\<rparr>
     ([] :: (key \<times> int scatter_value) list) None None =
     (Inl AssertionError, \<lparr>registry = [], add_indices_calls = [], accumulator = None\<rparr>) \<and>
   scatter_dict (\<lambda>u P. P) \<lparr>registry = [], add_indices_calls = [], accumulator = None\<rparr>
     [(IndexSetKey [(''X'', {0})], NumberValue (1::int)), (OtherKey ''X'', NumberValue 2)] None None =
     (Inl AssertionError, \<lparr>registry = [], add_indices_calls = [], accumulator = None\<rparr>)"
  using scatter_dict_precondition [of "[] :: (key \<times> int scatter_value) list" "\<lambda>u P. P"
      "\<lparr>registry = [], add_indices_calls = [], accumulator = None\<rparr>" None None]
    scatter_dict_precondition [of
      "[(IndexSetKey [(''X'', {0})], NumberValue (1::int)), (OtherKey ''X'', NumberValue 2)]"
      "\<lambda>u P. P" "\<lparr>registry = [], add_indices_calls = [], accumulator = None\<rparr>" None None]
  by simp

section \<open>Properties of the interruption event loop\<close>

lemma Interruption_in_block_messengers:
  "Interruption h \<in> set (block_messengers p stack) \<longleftrightarrow>
     Interruption h \<in> set stack \<and> \<not> p (Interruption h)"
  by (auto simp: block_messengers_def)

lemma single_fire_loop_body:
  assumes live: "reports_live_only ops"
    and inv: "single_fire (used st) (trace st)"
  shows "single_fire (used (loop_body ops self stack solver end_time st))
           (trace (loop_body ops self stack solver end_time st))"
proof -
  define stack1 where "stack1 = block_messengers
      (\<lambda>m. m = self \<or> interruption_used (used st) m) stack"
  define res where "res =
      get_next_interruptions ops stack1 solver (dynamics st) (state st) (start_time st) end_time"
  define stack2 where "stack2 = block_messengers
      (interruption_not_in (fst res)) stack"
  define it where "it = \<lparr>used_before = used st, live = stack1, terminal = fst res,
      integrated_from = start_time st, integrated_to = snd res, firing = stack2\<rparr>"
  have tr: "trace (loop_body ops self stack solver end_time st) = trace st @ [it]"
    and us: "used (loop_body ops self stack solver end_time st) = used st \<union> set (fst res)"
    unfolding it_def stack2_def res_def stack1_def
    by (simp_all add: loop_body_def Let_def split_beta)
  have fresh: "h \<notin> used st" if "h \<in> set (fst res)" for h
  proof -
    from live that have "Interruption h \<in> set stack1"
      unfolding reports_live_only_def res_def by blast
    then show ?thesis
      by (simp add: stack1_def Interruption_in_block_messengers)
  qed
  have fired: "h \<in> set (fst res)" if "Interruption h \<in> set (firing it)" for h
    using that by (simp add: it_def stack2_def Interruption_in_block_messengers)
  have old: "h \<in> used st" if "it0 \<in> set (trace st)" "Interruption h \<in> set (firing it0)" for it0 h
    using inv that unfolding single_fire_def by blast
  have c1: "\<forall>i < length (trace st @ [it]). \<forall>k < i.
      set (terminal ((trace st @ [it]) ! k)) \<subseteq> used_before ((trace st @ [it]) ! i)"
  proof (intro allI impI)
    fix i k assume i: "i < length (trace st @ [it])" and k: "k < i"
    show "set (terminal ((trace st @ [it]) ! k)) \<subseteq> used_before ((trace st @ [it]) ! i)"
    proof (cases "i < length (trace st)")
      case True
      with k inv show ?thesis unfolding single_fire_def by (simp add: nth_append)
    next
      case False
      with i have "i = length (trace st)" by simp
      with k have "trace st ! k \<in> set (trace st)" by simp
      with inv have "set (terminal (trace st ! k)) \<subseteq> used st"
        unfolding single_fire_def by blast
      with \<open>i = length (trace st)\<close> k show ?thesis by (simp add: nth_append it_def)
    qed
  qed
  have c2: "\<forall>x \<in> set (trace st @ [it]).
      set (terminal x) \<subseteq> used st \<union> set (fst res) \<and> used_before x \<subseteq> used st \<union> set (fst res)"
    using inv unfolding single_fire_def by (auto simp: it_def)
  have c3: "\<forall>x \<in> set (trace st @ [it]). \<forall>h \<in> used_before x. Interruption h \<notin> set (live x)"
    using inv unfolding single_fire_def
    by (auto simp: it_def stack1_def Interruption_in_block_messengers)
  have c4: "\<forall>x \<in> set (trace st @ [it]). \<forall>h. Interruption h \<in> set (firing x) \<longrightarrow> h \<in> set (terminal x)"
    using inv fired unfolding single_fire_def by (auto simp: it_def)
  have c5: "length (filter (\<lambda>x. Interruption h \<in> set (firing x)) (trace st @ [it])) \<le> 1" for h
  proof (cases "Interruption h \<in> set (firing it)")
    case True
    then have "h \<notin> used st" using fired fresh by blast
    with old have "filter (\<lambda>x. Interruption h \<in> set (firing x)) (trace st) = []"
      by (auto simp: filter_empty_conv)
    then show ?thesis by simp
  next
    case False
    with inv show ?thesis unfolding single_fire_def by simp
  qed
  show ?thesis
    unfolding tr us single_fire_def using c1 c2 c3 c4 c5 by blast
qed

lemma single_fire_steps:
  assumes "reports_live_only ops" and "single_fire (used st) (trace st)"
  shows "single_fire (used (event_loop_steps n ops self stack solver end_time st))
           (trace (event_loop_steps n ops self stack solver end_time st))"
  using assms
  by (induction n arbitrary: st) (simp_all add: single_fire_loop_body)

lemma event_loop_invariant:
  assumes run: "event_loop ops self stack solver end_time st = Some st'"
    and step: "\<And>s. I s \<Longrightarrow> start_time s < end_time \<Longrightarrow> I (loop_body ops self stack solver end_time s)"
    and init: "I st"
  shows "I st' \<and> \<not> start_time st' < end_time"
proof -
  define P where "P = (\<lambda>ops' self' stack' solver' end_time' s y.
      ops' = ops \<and> self' = self \<and> stack' = stack \<and> solver' = solver \<and> end_time' = end_time \<longrightarrow>
      I s \<longrightarrow> I y \<and> \<not> start_time y < end_time)"
  have "P ops self stack solver end_time st st'"
  proof (rule event_loop.raw_induct [where P = P, OF _ run])
    fix f ops' self' stack' solver' end_time' s y
    assume IH: "\<And>ops' self' stack' solver' end_time' s y.
        f ops' self' stack' solver' end_time' s = Some y \<Longrightarrow> P ops' self' stack' solver' end_time' s y"
      and eq: "(if start_time s < end_time'
          then f ops' self' stack' solver' end_time' (loop_body ops' self' stack' solver' end_time' s)
          else Some s) = Some y"
    show "P ops' self' stack' solver' end_time' s y"
    proof (cases "start_time s < end_time'")
      case True
      with eq have "f ops' self' stack' solver' end_time'
          (loop_body ops' self' stack' solver' end_time' s) = Some y" by simp
      from IH [OF this] True step show ?thesis unfolding P_def by blast
    next
      case False
      with eq show ?thesis unfolding P_def by auto
    qed
  qed
  with init show ?thesis unfolding P_def by blast
qed

lemma single_fire_Nil: "single_fire U []"
  by (simp add: single_fire_def)

text \<open>
  C8: when get\_next\_interruptions reports only interruptions that are live on the stack
  it is given, every run of the event loop fires each interruption at most once. After
  any number of iterations, and at the end of a run that terminates: the terminal
  interruptions of an iteration are marked used before every later iteration; used
  interruptions are hidden from every discovery and integration phase; in an effect phase
  only terminal interruptions of that iteration are live; and no interruption is live in
  the effect phase of two iterations.
\<close>

theorem event_loop_single_fire:
  assumes "reports_live_only ops"
  shows "(\<forall>n. let st = event_loop_steps n ops self stack solver end_time
                   \<lparr>dynamics = dyn, state = ini, start_time = start, used = flags, trace = []\<rparr>
              in single_fire (used st) (trace st)) \<and>
         (\<forall>st. pyro_simulate ops self stack flags get_solver (dyn, ini, start, end_time) kwargs_solver =
                 Some st \<longrightarrow>
              single_fire (used st) (trace st))"
proof (intro conjI allI impI)
  fix n
  show "let st = event_loop_steps n ops self stack solver end_time
                   \<lparr>dynamics = dyn, state = ini, start_time = start, used = flags, trace = []\<rparr>
        in single_fire (used st) (trace st)"
    unfolding Let_def using assms by (intro single_fire_steps) (simp_all add: single_fire_Nil)
next
  fix st
  assume "pyro_simulate ops self stack flags get_solver (dyn, ini, start, end_time) kwargs_solver =
      Some st"
  then obtain sv where run: "event_loop ops self stack sv end_time
      \<lparr>dynamics = dyn, state = ini, start_time = start, used = flags, trace = []\<rparr> = Some st"
    by (auto simp: pyro_simulate_def)
  from event_loop_invariant [OF run, where I = "\<lambda>s. single_fire (used s) (trace s)"]
  show "single_fire (used st) (trace st)"
    using assms by (simp add: single_fire_loop_body single_fire_Nil)
qed

lemma ex_run:
  "map_option (\<lambda>st. (state st, used st, map terminal (trace st)))
     (pyro_simulate ex_ops (InterruptionEventLoop 0) ex_stack {} () ((), [], 0, 10) None) =
   Some ([2, 5], {2, 5}, [[2], [5], []])"
  by (simp add: pyro_simulate_def event_loop.simps loop_body_def ex_ops_def ex_stack_def
      block_messengers_def Let_def insert_commute)

theorem event_loop_single_fire_witness:
  "reports_live_only ex_ops \<and>
   map_option state
     (pyro_simulate ex_ops (InterruptionEventLoop 0) ex_stack {} () ((), [], 0, 10) None) =
     Some [2, 5] \<and>
   single_fire
     (used (the (pyro_simulate ex_ops (InterruptionEventLoop 0) ex_stack {} () ((), [], 0, 10) None)))
     (trace (the (pyro_simulate ex_ops (InterruptionEventLoop 0) ex_stack {} () ((), [], 0, 10) None)))"
proof -
  have live: "reports_live_only ex_ops"
    by (auto simp: reports_live_only_def ex_ops_def split: list.splits if_splits)
  obtain st where run:
    "pyro_simulate ex_ops (InterruptionEventLoop 0) ex_stack {} () ((), [], 0, 10) None = Some st"
    using ex_run by auto
  from event_loop_single_fire [OF live, where self = "InterruptionEventLoop 0" and stack = ex_stack
      and flags = "{}" and get_solver = "()" and dyn = "()" and ini = "[]" and start = 0
      and end_time = 10 and kwargs_solver = None] run
  have "single_fire (used st) (trace st)" by blast
  with live run ex_run show ?thesis by simp
qed

text \<open>
  C9: when the start time is before the end time and get\_next\_interruptions always
  reports the end time, the loop runs its body exactly once and stops: there is one
  integration, from the start time to the end time, the current time is then the end
  time, and the result is the integrated state after the one effect phase.
\<close>

theorem event_loop_no_interruption:
  assumes "no_interruption_before ops end_time" and "start < end_time"
  shows "let solver = (case kwargs_solver of Some sv \<Rightarrow> sv | None \<Rightarrow> get_solver);
             st0 = \<lparr>dynamics = dyn, state = ini, start_time = start, used = flags, trace = []\<rparr>;
             stack1 = block_messengers (\<lambda>m. m = self \<or> interruption_used flags m) stack;
             terminal_interruptions = fst (get_next_interruptions ops stack1 solver dyn ini start end_time);
             state1 = simulate_to_interruption ops stack1 solver dyn ini start end_time;
             stack2 = block_messengers (interruption_not_in terminal_interruptions) stack
         in pyro_simulate ops self stack flags get_solver (dyn, ini, start, end_time) kwargs_solver =
              Some (loop_body ops self stack solver end_time st0) \<and>
            state (loop_body ops self stack solver end_time st0) =
              snd (apply_interruptions ops stack2 dyn state1) \<and>
            start_time (loop_body ops self stack solver end_time st0) = end_time \<and>
            map (\<lambda>it. (integrated_from it, integrated_to it))
              (trace (loop_body ops self stack solver end_time st0)) = [(start, end_time)]"
proof -
  define solver where "solver = (case kwargs_solver of Some sv \<Rightarrow> sv | None \<Rightarrow> get_solver)"
  define st0 :: "('a, 'c, 'd, 'e) loop_state" where
    "st0 = \<lparr>dynamics = dyn, state = ini, start_time = start, used = flags, trace = []\<rparr>"
  have snd_eq: "snd (get_next_interruptions ops stk sv dyn ini start end_time) = end_time" for stk sv
    using assms(1) unfolding no_interruption_before_def by blast
  have t: "start_time (loop_body ops self stack solver end_time st0) = end_time"
    by (simp add: loop_body_def Let_def split_beta st0_def snd_eq)
  have "event_loop ops self stack solver end_time st0 =
      event_loop ops self stack solver end_time (loop_body ops self stack solver end_time st0)"
    using assms(2) by (subst event_loop.simps) (simp add: st0_def)
  also have "\<dots> = Some (loop_body ops self stack solver end_time st0)"
    by (subst event_loop.simps) (simp add: t)
  finally have run: "pyro_simulate ops self stack flags get_solver (dyn, ini, start, end_time)
      kwargs_solver = Some (loop_body ops self stack solver end_time st0)"
    by (simp add: pyro_simulate_def st0_def solver_def)
  show ?thesis
    unfolding Let_def solver_def [symmetric]
    apply (intro conjI)
    subgoal using run by (simp add: st0_def)
    subgoal by (simp add: loop_body_def Let_def split_beta snd_eq)
    subgoal using t by (simp add: st0_def)
    subgoal by (simp add: loop_body_def Let_def split_beta snd_eq)
    done
qed

theorem event_loop_no_interruption_witness:
  "no_interruption_before quiet_ops 10 \<and> (0::nat) < 10 \<and>
   map_option (\<lambda>st. (state st, start_time st, length (trace st)))
     (pyro_simulate quiet_ops (InterruptionEventLoop 0) ex_stack {} () ((), [], 0, 10) None) =
   Some ([0, 10], 10, 1)"
proof -
  have quiet: "no_interruption_before quiet_ops 10"
    by (simp add: no_interruption_before_def quiet_ops_def)
  have lt: "(0::nat) < 10" by simp
  from event_loop_no_interruption [OF quiet lt, where self = "InterruptionEventLoop 0"
      and stack = ex_stack and flags = "{}" and get_solver = "()" and dyn = "()" and ini = "[]"
      and kwargs_solver = None]
  have "pyro_simulate quiet_ops (InterruptionEventLoop 0) ex_stack {} () ((), [], 0, 10) None =
      Some (loop_body quiet_ops (InterruptionEventLoop 0) ex_stack () 10
        \<lparr>dynamics = (), state = [], start_time = 0, used = {}, trace = []\<rparr>)"
    unfolding Let_def by simp
  then show ?thesis
    using quiet by (simp add: loop_body_def quiet_ops_def Let_def)
qed

end
